theory Spec2Isabelle
  imports
    Main
    "HOL-Library.Product_Lexorder"
    "HOL-Library.List_Lexorder"
    "HOL-Library.Char_ord"
    "HOL-Library.Multiset"
begin

section \<open>Python values and exceptions\<close>

text \<open>
  The two programs (\<^verbatim>\<open>today_tasks.py\<close> and \<^verbatim>\<open>workflow_server.py\<close>) work on the values
  that \<^verbatim>\<open>json.load\<close> returns: \<^verbatim>\<open>None\<close>, booleans, integers, strings, lists and
  dictionaries. A dictionary is an association list with pairwise distinct keys, in
  insertion order (the order \<^verbatim>\<open>json.dump\<close> writes).

  Scope of the model. A Python \<^verbatim>\<open>str\<close> is a \<^typ>\<open>string\<close> whose characters are the
  code points U+0000 to U+00FF; a file or a request body is a \<^typ>\<open>string\<close> of bytes.
  Floating-point numbers are not modelled. Where the library code meets a character
  beyond U+00FF or a number with a fraction or an exponent, the model yields
  \<open>Unmodelled\<close>, which is not a Python exception but the mark of an input that the
  model does not cover. \<open>FuelExhausted\<close> is the other artefact: the recursive-descent
  JSON scanner recurses on a counter, and \<open>loads\<close> starts it high enough that the
  counter never runs out (lemma \<open>loads_fuel\<close>). Limits of the interpreter (recursion
  depth, the digit limit of \<^verbatim>\<open>int\<close>, memory) and failures of the operating system on
  \<^verbatim>\<open>open\<close> are not modelled: a file is absent, or it is readable and writable.
\<close>

datatype json =
    JNull
  | JBool bool
  | JInt int
  | JStr string
  | JArr "json list"
  | JObj "(string \<times> json) list"

datatype exn =
    JSONDecodeError
  | UnicodeDecodeError
  | KeyError
  | TypeError
  | AttributeError
  | ValueError
  | Unmodelled
  | FuelExhausted

text \<open>Truth value of a value, as \<^verbatim>\<open>if not x\<close> tests it.\<close>

fun truthy :: "json \<Rightarrow> bool" where
  "truthy JNull = False"
| "truthy (JBool b) = b"
| "truthy (JInt n) = (n \<noteq> 0)"
| "truthy (JStr s) = (s \<noteq> [])"
| "truthy (JArr xs) = (xs \<noteq> [])"
| "truthy (JObj kvs) = (kvs \<noteq> [])"

text \<open>\<^verbatim>\<open>bool\<close> is a subclass of \<^verbatim>\<open>int\<close>: \<^verbatim>\<open>True == 1\<close>, \<^verbatim>\<open>True + 1 == 2\<close>.\<close>

fun num_of :: "json \<Rightarrow> int option" where
  "num_of (JInt n) = Some n"
| "num_of (JBool b) = Some (if b then 1 else 0)"
| "num_of _ = None"

text \<open>\<^verbatim>\<open>t[key]\<close> for a string key: only a dictionary can be indexed by a string.\<close>

fun subscript :: "json \<Rightarrow> string \<Rightarrow> exn + json" where
  "subscript (JObj kvs) k = (case map_of kvs k of None \<Rightarrow> Inl KeyError | Some v \<Rightarrow> Inr v)"
| "subscript _ k = Inl TypeError"

text \<open>\<^verbatim>\<open>t.get(key, default)\<close>: only a dictionary has the method.\<close>

fun dict_get :: "json \<Rightarrow> string \<Rightarrow> json \<Rightarrow> exn + json" where
  "dict_get (JObj kvs) k d = Inr (case map_of kvs k of None \<Rightarrow> d | Some v \<Rightarrow> v)"
| "dict_get _ k d = Inl AttributeError"

text \<open>\<^verbatim>\<open>d[key] = value\<close>: an existing key keeps its position, a new key goes last.\<close>

fun setitem :: "string \<Rightarrow> json \<Rightarrow> (string \<times> json) list \<Rightarrow> (string \<times> json) list" where
  "setitem k v [] = [(k, v)]"
| "setitem k v (p # kvs) = (if fst p = k then (k, v) # kvs else p # setitem k v kvs)"

text \<open>The items a \<^verbatim>\<open>for\<close> loop visits: a dictionary yields its keys, a string its characters.\<close>

fun iterate :: "json \<Rightarrow> exn + json list" where
  "iterate (JArr xs) = Inr xs"
| "iterate (JObj kvs) = Inr (map (\<lambda>p. JStr (fst p)) kvs)"
| "iterate (JStr s) = Inr (map (\<lambda>c. JStr [c]) s)"
| "iterate _ = Inl TypeError"

text \<open>\<^verbatim>\<open>len(x)\<close>.\<close>

fun py_len :: "json \<Rightarrow> exn + nat" where
  "py_len (JArr xs) = Inr (length xs)"
| "py_len (JObj kvs) = Inr (length kvs)"
| "py_len (JStr s) = Inr (length s)"
| "py_len _ = Inl TypeError"

text \<open>\<^verbatim>\<open>v == n\<close> for an integer \<open>n\<close> (the \<^verbatim>\<open>args.id\<close> that argparse converted).\<close>

definition eq_int :: "json \<Rightarrow> int \<Rightarrow> bool" where
  "eq_int v n = (num_of v = Some n)"

text \<open>
  \<^verbatim>\<open>a > b\<close>. Numbers compare by value and strings by code points; two lists compare
  element by element, which the model leaves out; every other pair raises.
\<close>

fun py_gt :: "json \<Rightarrow> json \<Rightarrow> exn + bool" where
  "py_gt (JStr a) (JStr b) = Inr (b < a)"
| "py_gt (JArr a) (JArr b) = Inl Unmodelled"
| "py_gt a b = (case (num_of a, num_of b) of (Some x, Some y) \<Rightarrow> Inr (y < x) | _ \<Rightarrow> Inl TypeError)"

section \<open>Text\<close>

abbreviation quote :: char where "quote \<equiv> CHR 0x22"
abbreviation backslash :: char where "backslash \<equiv> CHR 0x5C"
abbreviation newline :: char where "newline \<equiv> CHR 0x0A"

text \<open>\<^verbatim>\<open>str.isspace\<close> on the code points below U+0100.\<close>

definition isspace :: "char \<Rightarrow> bool" where
  "isspace c = ((of_char c :: nat) \<in> set [0x09, 0x0A, 0x0B, 0x0C, 0x0D, 0x1C, 0x1D, 0x1E, 0x1F,
                                        0x20, 0x85, 0xA0])"

text \<open>\<^verbatim>\<open>str.strip()\<close>.\<close>

definition strip :: "string \<Rightarrow> string" where
  "strip s = rev (dropWhile isspace (rev (dropWhile isspace s)))"

text \<open>
  \<^verbatim>\<open>str.upper()\<close> on the code points below U+0100: the sharp s becomes \<^verbatim>\<open>SS\<close>. The
  upper-case forms of U+00B5 and U+00FF lie beyond U+00FF; the model keeps the two
  characters, which no clock format matches either way.
\<close>

definition upper_char :: "char \<Rightarrow> string" where
  "upper_char c =
     (let n = (of_char c :: nat) in
      if 97 \<le> n \<and> n \<le> 122 then [char_of (n - 32)]
      else if n = 223 then ''SS''
      else if 224 \<le> n \<and> n \<le> 254 \<and> n \<noteq> 247 then [char_of (n - 32)]
      else [c])"

definition upper :: "string \<Rightarrow> string" where
  "upper s = concat (map upper_char s)"

text \<open>\<^verbatim>\<open>str.lower()\<close>, used by the library on the matched AM/PM text (ASCII letters).\<close>

definition lower_char :: "char \<Rightarrow> char" where
  "lower_char c = (let n = (of_char c :: nat) in if 65 \<le> n \<and> n \<le> 90 then char_of (n + 32) else c)"

definition lower :: "string \<Rightarrow> string" where
  "lower s = map lower_char s"

definition is_digit :: "char \<Rightarrow> bool" where
  "is_digit c = (c \<in> set ''0123456789'')"

definition digit_val :: "char \<Rightarrow> nat" where
  "digit_val c = of_char c - 48"

definition digit_char :: "nat \<Rightarrow> char" where
  "digit_char n = char_of (48 + n)"

text \<open>The value of a decimal numeral, as \<^verbatim>\<open>int(text)\<close> computes it from digits.\<close>

definition nat_of_digits :: "string \<Rightarrow> nat" where
  "nat_of_digits ds = foldl (\<lambda>a c. 10 * a + digit_val c) 0 ds"

text \<open>\<^verbatim>\<open>int.__repr__\<close>: decimal digits without leading zeros, a minus sign when negative.\<close>

fun digits :: "nat \<Rightarrow> string" where
  "digits n = (if n < 10 then [digit_char n] else digits (n div 10) @ [digit_char (n mod 10)])"

declare digits.simps [simp del]

definition intstr :: "int \<Rightarrow> string" where
  "intstr i = (if i < 0 then CHR ''-'' # digits (nat (- i)) else digits (nat i))"

section \<open>UTF-8\<close>

text \<open>
  \<^verbatim>\<open>bytes.decode("utf-8")\<close> and the reading of a file opened with
  \<^verbatim>\<open>encoding="utf-8"\<close>: the strict decoder, which rejects stray continuation bytes,
  truncated and overlong sequences, surrogates and code points above U+10FFFF.
\<close>

definition cont :: "nat \<Rightarrow> bool" where
  "cont b = (128 \<le> b \<and> b < 192)"

fun utf8_points :: "nat list \<Rightarrow> nat list option" where
  "utf8_points [] = Some []"
| "utf8_points (b # bs) =
     (if b < 128 then map_option (Cons b) (utf8_points bs)
      else if 194 \<le> b \<and> b < 224 then
        (case bs of
           c1 # r \<Rightarrow>
             if cont c1
             then map_option (Cons ((b - 192) * 64 + (c1 - 128))) (utf8_points r)
             else None
         | _ \<Rightarrow> None)
      else if 224 \<le> b \<and> b < 240 then
        (case bs of
           c1 # c2 # r \<Rightarrow>
             if cont c1 \<and> cont c2 \<and> (if b = 224 then 160 \<le> c1 else True)
                \<and> (if b = 237 then c1 < 160 else True)
             then map_option (Cons ((b - 224) * 4096 + (c1 - 128) * 64 + (c2 - 128)))
                    (utf8_points r)
             else None
         | _ \<Rightarrow> None)
      else if 240 \<le> b \<and> b < 245 then
        (case bs of
           c1 # c2 # c3 # r \<Rightarrow>
             if cont c1 \<and> cont c2 \<and> cont c3 \<and> (if b = 240 then 144 \<le> c1 else True)
                \<and> (if b = 244 then c1 < 144 else True)
             then map_option
                    (Cons ((b - 240) * 262144 + (c1 - 128) * 4096 + (c2 - 128) * 64 + (c3 - 128)))
                    (utf8_points r)
             else None
         | _ \<Rightarrow> None)
      else None)"

definition decode_utf8 :: "string \<Rightarrow> exn + string" where
  "decode_utf8 bytes =
     (case utf8_points (map of_char bytes) of
        None \<Rightarrow> Inl UnicodeDecodeError
      | Some cps \<Rightarrow> if list_all (\<lambda>cp. cp < 256) cps then Inr (map char_of cps) else Inl Unmodelled)"

text \<open>\<^verbatim>\<open>str.encode("utf-8")\<close> and the writing of a file opened with that encoding.\<close>

definition encode_char :: "char \<Rightarrow> string" where
  "encode_char c =
     (let n = (of_char c :: nat) in
      if n < 128 then [c] else [char_of (192 + n div 64), char_of (128 + n mod 64)])"

definition encode_utf8 :: "string \<Rightarrow> string" where
  "encode_utf8 text = concat (map encode_char text)"

section \<open>The JSON encoder: \<^verbatim>\<open>json.dump\<close> and \<^verbatim>\<open>json.dumps\<close>\<close>

text \<open>
  \<^verbatim>\<open>encode_basestring_ascii\<close> of the library (\<^verbatim>\<open>ensure_ascii\<close> is left at its default):
  every character outside the printable ASCII range, the quote and the backslash are
  escaped.
\<close>

definition hexdigit :: "nat \<Rightarrow> char" where
  "hexdigit n = ''0123456789abcdef'' ! n"

definition u_escape :: "nat \<Rightarrow> string" where
  "u_escape n = [backslash, CHR ''u'', hexdigit (n div 4096 mod 16), hexdigit (n div 256 mod 16),
                 hexdigit (n div 16 mod 16), hexdigit (n mod 16)]"

definition escape_char :: "char \<Rightarrow> string" where
  "escape_char c =
     (if c = backslash then [backslash, backslash]
      else if c = quote then [backslash, quote]
      else if c = CHR 0x08 then [backslash, CHR ''b'']
      else if c = CHR 0x0C then [backslash, CHR ''f'']
      else if c = CHR 0x0A then [backslash, CHR ''n'']
      else if c = CHR 0x0D then [backslash, CHR ''r'']
      else if c = CHR 0x09 then [backslash, CHR ''t'']
      else if 32 \<le> (of_char c :: nat) \<and> (of_char c :: nat) \<le> 126 then [c]
      else u_escape (of_char c))"

definition encode_basestring_ascii :: "string \<Rightarrow> string" where
  "encode_basestring_ascii s = quote # concat (map escape_char s) @ [quote]"

text \<open>
  The encoder proper, \<^verbatim>\<open>_make_iterencode\<close>. \<open>ind\<close> is the \<^verbatim>\<open>indent\<close> argument
  (\<open>None\<close>, or the number of spaces per level) and \<open>lvl\<close> the current level. With an
  indent the item separator is a comma and each item starts on a line of its own;
  without, the item separator is a comma and a space. The key separator is a colon
  and a space in both cases; an empty list or dictionary is written closed.
\<close>

definition newline_indent :: "nat option \<Rightarrow> nat \<Rightarrow> string" where
  "newline_indent ind lvl =
     (case ind of None \<Rightarrow> [] | Some n \<Rightarrow> newline # replicate (n * lvl) CHR '' '')"

definition item_separator :: "nat option \<Rightarrow> string" where
  "item_separator ind = (case ind of None \<Rightarrow> '', '' | Some n \<Rightarrow> '','')"

abbreviation key_separator :: string where "key_separator \<equiv> '': ''"

fun iterencode :: "nat option \<Rightarrow> nat \<Rightarrow> json \<Rightarrow> string"
  and iterencode_items :: "nat option \<Rightarrow> nat \<Rightarrow> json list \<Rightarrow> string"
  and iterencode_members :: "nat option \<Rightarrow> nat \<Rightarrow> (string \<times> json) list \<Rightarrow> string"
where
  "iterencode ind lvl JNull = ''null''"
| "iterencode ind lvl (JBool b) = (if b then ''true'' else ''false'')"
| "iterencode ind lvl (JInt n) = intstr n"
| "iterencode ind lvl (JStr s) = encode_basestring_ascii s"
| "iterencode ind lvl (JArr []) = ''[]''"
| "iterencode ind lvl (JArr (v # vs)) =
     ''['' @ newline_indent ind (Suc lvl) @ iterencode ind (Suc lvl) v
       @ iterencode_items ind (Suc lvl) vs @ newline_indent ind lvl @ '']''"
| "iterencode ind lvl (JObj []) = ''{}''"
| "iterencode ind lvl (JObj (p # kvs)) =
     ''{'' @ newline_indent ind (Suc lvl) @ encode_basestring_ascii (fst p) @ key_separator
       @ iterencode ind (Suc lvl) (snd p)
       @ iterencode_members ind (Suc lvl) kvs @ newline_indent ind lvl @ ''}''"
| "iterencode_items ind lvl [] = []"
| "iterencode_items ind lvl (v # vs) =
     item_separator ind @ newline_indent ind lvl @ iterencode ind lvl v
       @ iterencode_items ind lvl vs"
| "iterencode_members ind lvl [] = []"
| "iterencode_members ind lvl (p # kvs) =
     item_separator ind @ newline_indent ind lvl @ encode_basestring_ascii (fst p)
       @ key_separator @ iterencode ind lvl (snd p) @ iterencode_members ind lvl kvs"

text \<open>\<^verbatim>\<open>json.dumps(obj, indent=ind)\<close>, the text that \<^verbatim>\<open>json.dump\<close> writes.\<close>

definition dumps :: "nat option \<Rightarrow> json \<Rightarrow> string" where
  "dumps ind obj = iterencode ind 0 obj"

section \<open>The JSON decoder: \<^verbatim>\<open>json.load\<close> and \<^verbatim>\<open>json.loads\<close>\<close>

text \<open>The decoder skips the four characters of \<^verbatim>\<open>WHITESPACE\<close> between tokens.\<close>

definition json_ws :: "char \<Rightarrow> bool" where
  "json_ws c = (c \<in> set [CHR '' '', CHR 0x09, CHR 0x0A, CHR 0x0D])"

definition skip_ws :: "string \<Rightarrow> string" where
  "skip_ws s = dropWhile json_ws s"

definition hexval :: "char \<Rightarrow> nat option" where
  "hexval c = map_of (zip ''0123456789abcdefABCDEF''
                 [0, 1, 2, 3, 4, 5, 6, 7, 8, 9, 10, 11, 12, 13, 14, 15, 10, 11, 12, 13, 14, 15]) c"

text \<open>The table \<^verbatim>\<open>BACKSLASH\<close> of the one-letter escapes.\<close>

definition unescape :: "char \<Rightarrow> char option" where
  "unescape c = map_of [(quote, quote), (backslash, backslash), (CHR ''/'', CHR ''/''),
                        (CHR ''b'', CHR 0x08), (CHR ''f'', CHR 0x0C), (CHR ''n'', CHR 0x0A),
                        (CHR ''r'', CHR 0x0D), (CHR ''t'', CHR 0x09)] c"

text \<open>
  \<^verbatim>\<open>scanstring\<close>, from the character after the opening quote: the decoded string and
  the text after the closing quote. A literal control character is refused (the
  decoder is strict), a \<^verbatim>\<open>\uXXXX\<close> escape takes four hexadecimal digits.
\<close>

definition cons_char :: "char \<Rightarrow> exn + string \<times> string \<Rightarrow> exn + string \<times> string" where
  "cons_char c r = (case r of Inl e \<Rightarrow> Inl e | Inr (s, rest) \<Rightarrow> Inr (c # s, rest))"

fun scanstring :: "string \<Rightarrow> exn + string \<times> string" where
  "scanstring [] = Inl JSONDecodeError"
| "scanstring (c # s) =
     (if c = quote then Inr ([], s)
      else if c = backslash then
        (case s of
           [] \<Rightarrow> Inl JSONDecodeError
         | e # s1 \<Rightarrow>
             if e = CHR ''u'' then
               (case s1 of
                  h1 # h2 # h3 # h4 # s2 \<Rightarrow>
                    (case (hexval h1, hexval h2, hexval h3, hexval h4) of
                       (Some a, Some b, Some c, Some d) \<Rightarrow>
                         (let uni = a * 4096 + b * 256 + c * 16 + d
                          in if uni < 256 then cons_char (char_of uni) (scanstring s2)
                             else Inl Unmodelled)
                     | _ \<Rightarrow> Inl JSONDecodeError)
                | _ \<Rightarrow> Inl JSONDecodeError)
             else
               (case unescape e of
                  None \<Rightarrow> Inl JSONDecodeError
                | Some ch \<Rightarrow> cons_char ch (scanstring s1)))
      else if (of_char c :: nat) < 32 then Inl JSONDecodeError
      else cons_char c (scanstring s))"

text \<open>
  \<^verbatim>\<open>NUMBER_RE\<close>: an optional minus sign, then a zero or a non-zero digit followed by
  digits; then, each optional, a fraction and an exponent. \<open>None\<close> when no number
  starts the text. A number with a fraction or an exponent is a float.
\<close>

definition starts_frac :: "string \<Rightarrow> bool" where
  "starts_frac s = (case s of a # b # r \<Rightarrow> a = CHR ''.'' \<and> is_digit b | _ \<Rightarrow> False)"

definition starts_exp :: "string \<Rightarrow> bool" where
  "starts_exp s =
     (case s of
        a # r \<Rightarrow>
          (a = CHR ''e'' \<or> a = CHR ''E'')
          \<and> (case r of
                b # r1 \<Rightarrow>
                  is_digit b
                  \<or> ((b = CHR ''-'' \<or> b = CHR ''+'') \<and> (case r1 of c # r2 \<Rightarrow> is_digit c | [] \<Rightarrow> False))
              | [] \<Rightarrow> False)
      | [] \<Rightarrow> False)"

definition match_integer :: "string \<Rightarrow> (nat \<times> string) option" where
  "match_integer s =
     (case s of
        [] \<Rightarrow> None
      | c # r \<Rightarrow>
          if c = CHR ''0'' then Some (0, r)
          else if is_digit c
          then Some (nat_of_digits (c # takeWhile is_digit r), dropWhile is_digit r)
          else None)"

definition match_number :: "string \<Rightarrow> (exn + json \<times> string) option" where
  "match_number s =
     (let (neg, s1) = (case s of c # r \<Rightarrow> if c = CHR ''-'' then (True, r) else (False, s)
                       | [] \<Rightarrow> (False, s))
      in case match_integer s1 of
           None \<Rightarrow> None
         | Some (n, rest) \<Rightarrow>
             Some (if starts_frac rest \<or> starts_exp rest then Inl Unmodelled
                   else Inr (JInt (if neg then - int n else int n), rest)))"

text \<open>\<^verbatim>\<open>string[idx:idx + len(w)] == w\<close>.\<close>

definition starts_with :: "string \<Rightarrow> string \<Rightarrow> bool" where
  "starts_with w s = (take (length w) s = w)"

text \<open>\<^verbatim>\<open>dict(pairs)\<close>: a repeated key keeps its first position and its last value.\<close>

definition dict_of_pairs :: "(string \<times> json) list \<Rightarrow> (string \<times> json) list" where
  "dict_of_pairs pairs = foldl (\<lambda>d p. setitem (fst p) (snd p) d) [] pairs"

text \<open>
  \<^verbatim>\<open>scan_once\<close> with \<^verbatim>\<open>JSONArray\<close> and \<^verbatim>\<open>JSONObject\<close>. \<open>array_loop\<close> is the loop of
  \<^verbatim>\<open>JSONArray\<close>, entered at the first character of an item; \<open>object_loop\<close> is the loop
  of \<^verbatim>\<open>JSONObject\<close>, entered after the opening quote of a key. The first argument
  bounds the recursion.
\<close>

fun scan_once :: "nat \<Rightarrow> string \<Rightarrow> exn + json \<times> string"
  and array_loop :: "nat \<Rightarrow> string \<Rightarrow> exn + json list \<times> string"
  and object_loop :: "nat \<Rightarrow> string \<Rightarrow> exn + (string \<times> json) list \<times> string"
where
  "scan_once 0 s = Inl FuelExhausted"
| "scan_once (Suc n) [] = Inl JSONDecodeError"
| "scan_once (Suc n) (c # s) =
     (if c = quote then
        (case scanstring s of Inl e \<Rightarrow> Inl e | Inr (str, rest) \<Rightarrow> Inr (JStr str, rest))
      else if c = CHR ''{'' then
        (case skip_ws s of
           [] \<Rightarrow> Inl JSONDecodeError
         | d # s1 \<Rightarrow>
             if d = CHR ''}'' then Inr (JObj [], s1)
             else if d = quote then
               (case object_loop n s1 of
                  Inl e \<Rightarrow> Inl e
                | Inr (pairs, rest) \<Rightarrow> Inr (JObj (dict_of_pairs pairs), rest))
             else Inl JSONDecodeError)
      else if c = CHR ''['' then
        (case skip_ws s of
           [] \<Rightarrow> Inl JSONDecodeError
         | d # s1 \<Rightarrow>
             if d = CHR '']'' then Inr (JArr [], s1)
             else (case array_loop n (d # s1) of
                     Inl e \<Rightarrow> Inl e
                   | Inr (values, rest) \<Rightarrow> Inr (JArr values, rest)))
      else if starts_with ''null'' (c # s) then Inr (JNull, drop 4 (c # s))
      else if starts_with ''true'' (c # s) then Inr (JBool True, drop 4 (c # s))
      else if starts_with ''false'' (c # s) then Inr (JBool False, drop 5 (c # s))
      else
        (case match_number (c # s) of
           Some r \<Rightarrow> r
         | None \<Rightarrow>
             if starts_with ''NaN'' (c # s) \<or> starts_with ''Infinity'' (c # s)
                \<or> starts_with ''-Infinity'' (c # s)
             then Inl Unmodelled
             else Inl JSONDecodeError))"
| "array_loop 0 s = Inl FuelExhausted"
| "array_loop (Suc n) s =
     (case scan_once (Suc n) s of
        Inl e \<Rightarrow> Inl e
      | Inr (v, rest) \<Rightarrow>
          (case skip_ws rest of
             [] \<Rightarrow> Inl JSONDecodeError
           | d # s1 \<Rightarrow>
               if d = CHR '']'' then Inr ([v], s1)
               else if d = CHR '','' then
                 (case array_loop n (skip_ws s1) of
                    Inl e \<Rightarrow> Inl e
                  | Inr (vs, rest1) \<Rightarrow> Inr (v # vs, rest1))
               else Inl JSONDecodeError))"
| "object_loop 0 s = Inl FuelExhausted"
| "object_loop (Suc n) s =
     (case scanstring s of
        Inl e \<Rightarrow> Inl e
      | Inr (key, rest) \<Rightarrow>
          (case skip_ws rest of
             [] \<Rightarrow> Inl JSONDecodeError
           | d # s1 \<Rightarrow>
               if d \<noteq> CHR '':'' then Inl JSONDecodeError
               else
                 (case scan_once (Suc n) (skip_ws s1) of
                    Inl e \<Rightarrow> Inl e
                  | Inr (v, rest1) \<Rightarrow>
                      (case skip_ws rest1 of
                         [] \<Rightarrow> Inl JSONDecodeError
                       | d1 # s2 \<Rightarrow>
                           if d1 = CHR ''}'' then Inr ([(key, v)], s2)
                           else if d1 = CHR '','' then
                             (case skip_ws s2 of
                                [] \<Rightarrow> Inl JSONDecodeError
                              | d2 # s3 \<Rightarrow>
                                  if d2 \<noteq> quote then Inl JSONDecodeError
                                  else
                                    (case object_loop n s3 of
                                       Inl e \<Rightarrow> Inl e
                                     | Inr (pairs, rest2) \<Rightarrow> Inr ((key, v) # pairs, rest2)))
                           else Inl JSONDecodeError))))"

text \<open>
  \<^verbatim>\<open>json.loads(text)\<close>: one value between optional whitespace, and nothing after it.
\<close>

definition loads :: "string \<Rightarrow> exn + json" where
  "loads text =
     (case scan_once (Suc (length text)) (skip_ws text) of
        Inl e \<Rightarrow> Inl e
      | Inr (obj, rest) \<Rightarrow> if skip_ws rest = [] then Inr obj else Inl JSONDecodeError)"

section \<open>The task store of \<^verbatim>\<open>today_tasks.py\<close>\<close>

text \<open>
  The store file \<^verbatim>\<open>.today_tasks.json\<close>: absent, or its bytes. \<open>load_tasks\<close> returns
  the empty list for an absent file and when the decoder raises
  \<^verbatim>\<open>json.JSONDecodeError\<close>, the one exception the source catches; \<open>save_tasks\<close> is
  the content of the file after the call.
\<close>

type_synonym disk_file = "string option"

definition load_tasks :: "disk_file \<Rightarrow> exn + json" where
  "load_tasks f =
     (case f of
        None \<Rightarrow> Inr (JArr [])
      | Some bytes \<Rightarrow>
          (case decode_utf8 bytes of
             Inl e \<Rightarrow> Inl e
           | Inr text \<Rightarrow>
               (case loads text of
                  Inl e \<Rightarrow> if e = JSONDecodeError then Inr (JArr []) else Inl e
                | Inr tasks \<Rightarrow> Inr tasks)))"

definition save_tasks :: "json \<Rightarrow> disk_file" where
  "save_tasks tasks = Some (encode_utf8 (dumps (Some 2) tasks))"

text \<open>
  \<^verbatim>\<open>max((t["id"] for t in tasks), default=0) + 1\<close>: \<open>max_id\<close> runs the generator with
  the greatest item so far, which a later item replaces when it is greater.
\<close>

fun max_id :: "json option \<Rightarrow> json list \<Rightarrow> exn + json option" where
  "max_id m [] = Inr m"
| "max_id m (t # ts) =
     (case subscript t ''id'' of
        Inl e \<Rightarrow> Inl e
      | Inr v \<Rightarrow>
          (case m of
             None \<Rightarrow> max_id (Some v) ts
           | Some cur \<Rightarrow>
               (case py_gt v cur of
                  Inl e \<Rightarrow> Inl e
                | Inr b \<Rightarrow> max_id (Some (if b then v else cur)) ts)))"

definition next_id :: "json \<Rightarrow> exn + json" where
  "next_id tasks =
     (case iterate tasks of
        Inl e \<Rightarrow> Inl e
      | Inr ts \<Rightarrow>
          (case max_id None ts of
             Inl e \<Rightarrow> Inl e
           | Inr m \<Rightarrow>
               (case num_of (case m of None \<Rightarrow> JInt 0 | Some v \<Rightarrow> v) of
                  None \<Rightarrow> Inl TypeError
                | Some n \<Rightarrow> Inr (JInt (n + 1)))))"

text \<open>
  What a command prints, with the values that the f-string formats, and what it
  leaves behind: the exception that ended it, if any, the lines printed, and the
  store file.
\<close>

datatype message =
    Added json json
  | NoTasksYet
  | TaskLine bool json json "json option"
  | MarkedDone json json
  | MarkedNotDone json json
  | TaskNotFound int
  | RemovedTask int

record outcome =
  raised :: "exn option"
  printed :: "message list"
  store :: disk_file

definition raise :: "exn \<Rightarrow> disk_file \<Rightarrow> outcome" where
  "raise e f = \<lparr>raised = Some e, printed = [], store = f\<rparr>"

definition done_with :: "message list \<Rightarrow> disk_file \<Rightarrow> outcome" where
  "done_with ms f = \<lparr>raised = None, printed = ms, store = f\<rparr>"

text \<open>
  \<^verbatim>\<open>cmd_add\<close>: \<open>text\<close> and \<open>due\<close> are \<^verbatim>\<open>args.text\<close> and \<^verbatim>\<open>args.due\<close>, \<open>now\<close> is the
  timestamp \<^verbatim>\<open>datetime.now().isoformat(timespec="seconds")\<close>. Only a list has
  \<^verbatim>\<open>append\<close>.
\<close>

definition new_task :: "json \<Rightarrow> string \<Rightarrow> string option \<Rightarrow> string \<Rightarrow> json" where
  "new_task i text due now =
     JObj [(''id'', i),
           (''text'', JStr (strip text)),
           (''due'', (case due of None \<Rightarrow> JNull
                      | Some d \<Rightarrow> if d \<noteq> [] then JStr (strip d) else JNull)),
           (''done'', JBool False),
           (''created_at'', JStr now)]"

definition cmd_add :: "string \<Rightarrow> string option \<Rightarrow> string \<Rightarrow> disk_file \<Rightarrow> outcome" where
  "cmd_add text due now f =
     (case load_tasks f of
        Inl e \<Rightarrow> raise e f
      | Inr tasks \<Rightarrow>
          (case next_id tasks of
             Inl e \<Rightarrow> raise e f
           | Inr i \<Rightarrow>
               (case tasks of
                  JArr ts \<Rightarrow>
                    done_with [Added i (JStr (strip text))]
                      (save_tasks (JArr (ts @ [new_task i text due now])))
                | _ \<Rightarrow> raise AttributeError f)))"

text \<open>
  \<^verbatim>\<open>cmd_done\<close> and \<^verbatim>\<open>cmd_undone\<close>. \<open>mark b i\<close> is the loop: it stops at the first
  task whose id equals \<open>i\<close>, sets its \<^verbatim>\<open>done\<close> entry in place and yields the list with
  that task; \<open>None\<close> when the loop ends without a match. A match is a dictionary, so
  the collection that holds it is a list.
\<close>

fun set_done :: "bool \<Rightarrow> json \<Rightarrow> json" where
  "set_done b (JObj kvs) = JObj (setitem ''done'' (JBool b) kvs)"
| "set_done b t = t"

fun mark :: "bool \<Rightarrow> int \<Rightarrow> json list \<Rightarrow> exn + (json list \<times> json) option" where
  "mark b i [] = Inr None"
| "mark b i (t # ts) =
     (case subscript t ''id'' of
        Inl e \<Rightarrow> Inl e
      | Inr v \<Rightarrow>
          if eq_int v i then Inr (Some (set_done b t # ts, set_done b t))
          else (case mark b i ts of
                  Inl e \<Rightarrow> Inl e
                | Inr None \<Rightarrow> Inr None
                | Inr (Some (ts', t')) \<Rightarrow> Inr (Some (t # ts', t'))))"

definition cmd_mark :: "bool \<Rightarrow> int \<Rightarrow> disk_file \<Rightarrow> outcome" where
  "cmd_mark b i f =
     (case load_tasks f of
        Inl e \<Rightarrow> raise e f
      | Inr tasks \<Rightarrow>
          (case iterate tasks of
             Inl e \<Rightarrow> raise e f
           | Inr ts \<Rightarrow>
               (case mark b i ts of
                  Inl e \<Rightarrow> raise e f
                | Inr None \<Rightarrow> done_with [TaskNotFound i] f
                | Inr (Some (ts', t)) \<Rightarrow>
                    (case subscript t ''id'' of
                       Inl e \<Rightarrow> raise e (save_tasks (JArr ts'))
                     | Inr v \<Rightarrow>
                         (case subscript t ''text'' of
                            Inl e \<Rightarrow> raise e (save_tasks (JArr ts'))
                          | Inr txt \<Rightarrow>
                              done_with [if b then MarkedDone v txt else MarkedNotDone v txt]
                                (save_tasks (JArr ts')))))))"

definition cmd_done :: "int \<Rightarrow> disk_file \<Rightarrow> outcome" where
  "cmd_done i f = cmd_mark True i f"

definition cmd_undone :: "int \<Rightarrow> disk_file \<Rightarrow> outcome" where
  "cmd_undone i f = cmd_mark False i f"

text \<open>\<^verbatim>\<open>cmd_remove\<close>: the list comprehension, then the comparison of the two lengths.\<close>

fun filter_out :: "int \<Rightarrow> json list \<Rightarrow> exn + json list" where
  "filter_out i [] = Inr []"
| "filter_out i (t # ts) =
     (case subscript t ''id'' of
        Inl e \<Rightarrow> Inl e
      | Inr v \<Rightarrow>
          (case filter_out i ts of
             Inl e \<Rightarrow> Inl e
           | Inr ts' \<Rightarrow> Inr (if eq_int v i then ts' else t # ts')))"

definition cmd_remove :: "int \<Rightarrow> disk_file \<Rightarrow> outcome" where
  "cmd_remove i f =
     (case load_tasks f of
        Inl e \<Rightarrow> raise e f
      | Inr tasks \<Rightarrow>
          (case iterate tasks of
             Inl e \<Rightarrow> raise e f
           | Inr ts \<Rightarrow>
               (case filter_out i ts of
                  Inl e \<Rightarrow> raise e f
                | Inr filtered \<Rightarrow>
                    if length filtered = length ts then done_with [TaskNotFound i] f
                    else done_with [RemovedTask i] (save_tasks (JArr filtered)))))"

text \<open>
  A task as the data model has it: a dictionary with an integer \<^verbatim>\<open>id\<close>, a string
  \<^verbatim>\<open>text\<close>, a \<^verbatim>\<open>due\<close> that is \<^verbatim>\<open>None\<close> or a string, a boolean \<^verbatim>\<open>done\<close> and a
  string \<^verbatim>\<open>created_at\<close>.
\<close>

fun is_int :: "json \<Rightarrow> bool" where
  "is_int (JInt i) = True"
| "is_int v = False"

fun is_str :: "json \<Rightarrow> bool" where
  "is_str (JStr s) = True"
| "is_str v = False"

fun is_bool :: "json \<Rightarrow> bool" where
  "is_bool (JBool b) = True"
| "is_bool v = False"

fun is_due :: "json \<Rightarrow> bool" where
  "is_due JNull = True"
| "is_due (JStr s) = True"
| "is_due v = False"

definition has :: "string \<Rightarrow> (json \<Rightarrow> bool) \<Rightarrow> (string \<times> json) list \<Rightarrow> bool" where
  "has k P kvs = (case map_of kvs k of None \<Rightarrow> False | Some v \<Rightarrow> P v)"

definition is_task :: "json \<Rightarrow> bool" where
  "is_task t =
     (case t of
        JObj kvs \<Rightarrow>
          has ''id'' is_int kvs \<and> has ''text'' is_str kvs \<and> has ''due'' is_due kvs
          \<and> has ''done'' is_bool kvs \<and> has ''created_at'' is_str kvs
      | _ \<Rightarrow> False)"

definition id_of :: "json \<Rightarrow> int" where
  "id_of t = (case subscript t ''id'' of Inr (JInt i) \<Rightarrow> i | _ \<Rightarrow> 0)"

text \<open>The value under a key of a dictionary, \<open>None\<close> for a missing key.\<close>

definition field :: "string \<Rightarrow> json \<Rightarrow> json option" where
  "field k t = (case t of JObj kvs \<Rightarrow> map_of kvs k | _ \<Rightarrow> None)"

definition keys :: "json \<Rightarrow> string list" where
  "keys t = (case t of JObj kvs \<Rightarrow> map fst kvs | _ \<Rightarrow> [])"

section \<open>Due times: \<^verbatim>\<open>datetime.strptime\<close> and \<^verbatim>\<open>parse_due_key\<close>\<close>

text \<open>
  \<^verbatim>\<open>datetime.strptime(data, format)\<close> compiles the format into a regular expression,
  matches it at the start of the data (ignoring case) and then requires the match to
  cover the data. A matcher yields its matches in the order in which the regular
  expression tries them, each with the text matched and the text left, so that the
  head of the list is the match \<^verbatim>\<open>re.match\<close> finds. The model has the four directives
  that the program uses, under the C locale (\<^verbatim>\<open>am\<close>, \<^verbatim>\<open>pm\<close>); a format with another
  directive matches nothing.
\<close>

type_synonym matcher = "string \<Rightarrow> (string \<times> string) list"

definition chr_in :: "string \<Rightarrow> matcher" where
  "chr_in cs s = (case s of [] \<Rightarrow> [] | c # r \<Rightarrow> if c \<in> set cs then [([c], r)] else [])"

definition re_seq :: "matcher \<Rightarrow> matcher \<Rightarrow> matcher" where
  "re_seq p q s = concat (map (\<lambda>(a, r). map (\<lambda>(b, r'). (a @ b, r')) (q r)) (p s))"

definition re_alt :: "matcher \<Rightarrow> matcher \<Rightarrow> matcher" where
  "re_alt p q s = p s @ q s"

definition re_word :: "string \<Rightarrow> matcher" where
  "re_word w s =
     (if lower (take (length w) s) = lower w then [(take (length w) s, drop (length w) s)] else [])"

text \<open>
  \<^verbatim>\<open>%H\<close> is \<^verbatim>\<open>2[0-3]|[0-1]\d|\d\<close>, \<^verbatim>\<open>%I\<close> is \<^verbatim>\<open>1[0-2]|0[1-9]|[1-9]\<close>, \<^verbatim>\<open>%M\<close> is
  \<^verbatim>\<open>[0-5]\d|\d\<close> and \<^verbatim>\<open>%p\<close> is \<^verbatim>\<open>am|pm\<close>.
\<close>

definition re_H :: matcher where
  "re_H = re_alt (re_seq (chr_in ''2'') (chr_in ''0123''))
            (re_alt (re_seq (chr_in ''01'') (chr_in ''0123456789'')) (chr_in ''0123456789''))"

definition re_I :: matcher where
  "re_I = re_alt (re_seq (chr_in ''1'') (chr_in ''012''))
            (re_alt (re_seq (chr_in ''0'') (chr_in ''123456789'')) (chr_in ''123456789''))"

definition re_M :: matcher where
  "re_M = re_alt (re_seq (chr_in ''012345'') (chr_in ''0123456789'')) (chr_in ''0123456789'')"

definition re_p :: matcher where
  "re_p = re_alt (re_word ''am'') (re_word ''pm'')"

definition directive :: "char \<Rightarrow> matcher option" where
  "directive d =
     (if d = CHR ''H'' then Some re_H
      else if d = CHR ''I'' then Some re_I
      else if d = CHR ''M'' then Some re_M
      else if d = CHR ''p'' then Some re_p
      else None)"

text \<open>The matches of a format: the groups found, in the order of the format.\<close>

fun pattern :: "string \<Rightarrow> string \<Rightarrow> ((char \<times> string) list \<times> string) list" where
  "pattern [] s = [([], s)]"
| "pattern [c] s = map (\<lambda>(a, r). ([], r)) (re_word [c] s)"
| "pattern (c # d # fmt) s =
     (if c = CHR ''%'' then
        (case directive d of
           None \<Rightarrow> []
         | Some m \<Rightarrow>
             concat (map (\<lambda>(txt, r). map (\<lambda>(found, r'). ((d, txt) # found, r')) (pattern fmt r))
                       (m s)))
      else concat (map (\<lambda>(a, r). pattern (d # fmt) r) (re_word [c] s)))"

text \<open>
  The loop of \<^verbatim>\<open>_strptime\<close> over the groups found: \<^verbatim>\<open>%H\<close> and \<^verbatim>\<open>%M\<close> give the hour
  and the minute; \<^verbatim>\<open>%I\<close> gives the hour together with the AM/PM text, where 12 AM
  is hour 0 and 12 PM is hour 12.
\<close>

definition convert :: "(char \<times> string) list \<Rightarrow> nat \<times> nat \<Rightarrow> char \<times> string \<Rightarrow> nat \<times> nat" where
  "convert found hm g =
     (if fst g = CHR ''H'' then (nat_of_digits (snd g), snd hm)
      else if fst g = CHR ''I'' then
        (let hour = nat_of_digits (snd g);
             ampm = lower (case map_of found CHR ''p'' of None \<Rightarrow> [] | Some p \<Rightarrow> p)
         in if ampm = [] \<or> ampm = ''am'' then (if hour = 12 then 0 else hour, snd hm)
            else if ampm = ''pm'' then (if hour \<noteq> 12 then hour + 12 else hour, snd hm)
            else (hour, snd hm))
      else if fst g = CHR ''M'' then (fst hm, nat_of_digits (snd g))
      else hm)"

text \<open>The hour and the minute of the \<^verbatim>\<open>datetime\<close> returned, or \<^verbatim>\<open>ValueError\<close>.\<close>

definition strptime :: "string \<Rightarrow> string \<Rightarrow> exn + nat \<times> nat" where
  "strptime data fmt =
     (case pattern fmt data of
        [] \<Rightarrow> Inl ValueError
      | m # ms \<Rightarrow> if snd m \<noteq> [] then Inl ValueError else Inr (foldl (convert (fst m)) (0, 0) (fst m)))"

text \<open>
  \<^verbatim>\<open>parse_due_key\<close>: \<open>try_formats\<close> is the loop over the formats, which returns at the
  first format that \<^verbatim>\<open>strptime\<close> accepts.
\<close>

fun try_formats :: "string \<Rightarrow> string list \<Rightarrow> int \<times> string" where
  "try_formats due [] = (999998, due)"
| "try_formats due (fmt # fmts) =
     (case strptime (upper due) fmt of
        Inr hm \<Rightarrow> (int (fst hm * 60 + snd hm), due)
      | Inl e \<Rightarrow> try_formats due fmts)"

definition parse_due_key :: "json \<Rightarrow> exn + int \<times> string" where
  "parse_due_key due =
     (if \<not> truthy due then Inr (999999, [])
      else (case due of
              JStr s \<Rightarrow> Inr (try_formats (strip s) [''%H:%M'', ''%I:%M%p'', ''%I%p''])
            | _ \<Rightarrow> Inl AttributeError))"

section \<open>The display order: \<^verbatim>\<open>sort_tasks\<close> and \<^verbatim>\<open>cmd_list\<close>\<close>

text \<open>The key function \<^verbatim>\<open>lambda t: (t["done"],) + parse_due_key(t.get("due"))\<close>.\<close>

definition task_key :: "json \<Rightarrow> exn + json \<times> int \<times> string" where
  "task_key t =
     (case subscript t ''done'' of
        Inl e \<Rightarrow> Inl e
      | Inr d \<Rightarrow>
          (case dict_get t ''due'' JNull of
             Inl e \<Rightarrow> Inl e
           | Inr due \<Rightarrow>
               (case parse_due_key due of
                  Inl e \<Rightarrow> Inl e
                | Inr rs \<Rightarrow> Inr (d, rs))))"

fun task_keys :: "json list \<Rightarrow> exn + (json \<times> int \<times> string) list" where
  "task_keys [] = Inr []"
| "task_keys (t # ts) =
     (case task_key t of
        Inl e \<Rightarrow> Inl e
      | Inr k \<Rightarrow> (case task_keys ts of Inl e \<Rightarrow> Inl e | Inr ks \<Rightarrow> Inr (k # ks)))"

text \<open>
  \<^verbatim>\<open>sorted(tasks, key=...)\<close> computes the key of every item, then sorts stably by
  the keys, which are tuples and compare lexicographically, booleans as the integers
  0 and 1. When some \<^verbatim>\<open>done\<close> value is not a number, whether Python raises depends on
  the pairs that its sort happens to compare; the model leaves that case out. A
  stable sort has one result, which \<^const>\<open>sort_key\<close> computes.
\<close>

definition num_key :: "json \<times> int \<times> string \<Rightarrow> (int \<times> int \<times> string) option" where
  "num_key k = (case num_of (fst k) of None \<Rightarrow> None | Some d \<Rightarrow> Some (d, snd k))"

definition sort_tasks :: "json \<Rightarrow> exn + json list" where
  "sort_tasks tasks =
     (case iterate tasks of
        Inl e \<Rightarrow> Inl e
      | Inr ts \<Rightarrow>
          (case task_keys ts of
             Inl e \<Rightarrow> Inl e
           | Inr ks \<Rightarrow>
               (case those (map num_key ks) of
                  None \<Rightarrow> Inl Unmodelled
                | Some nks \<Rightarrow> Inr (map snd (sort_key fst (zip nks ts))))))"

text \<open>
  \<^verbatim>\<open>format_task_line\<close>, whose expressions the loop of \<^verbatim>\<open>cmd_list\<close> repeats: the line of
  a task, with the values that the f-string formats.
\<close>

definition format_task_line :: "json \<Rightarrow> exn + message" where
  "format_task_line task =
     (case subscript task ''done'' of
        Inl e \<Rightarrow> Inl e
      | Inr d \<Rightarrow>
          (case dict_get task ''due'' JNull of
             Inl e \<Rightarrow> Inl e
           | Inr g \<Rightarrow>
               (case (if truthy g then map_sum id Some (subscript task ''due'') else Inr None) of
                  Inl e \<Rightarrow> Inl e
                | Inr due \<Rightarrow>
                    (case subscript task ''id'' of
                       Inl e \<Rightarrow> Inl e
                     | Inr i \<Rightarrow>
                         (case subscript task ''text'' of
                            Inl e \<Rightarrow> Inl e
                          | Inr txt \<Rightarrow> Inr (TaskLine (truthy d) i txt due))))))"

fun print_lines :: "json list \<Rightarrow> message list \<Rightarrow> disk_file \<Rightarrow> outcome" where
  "print_lines [] out f = done_with out f"
| "print_lines (t # ts) out f =
     (case format_task_line t of
        Inl e \<Rightarrow> \<lparr>raised = Some e, printed = out, store = f\<rparr>
      | Inr line \<Rightarrow> print_lines ts (out @ [line]) f)"

definition cmd_list :: "disk_file \<Rightarrow> outcome" where
  "cmd_list f =
     (case load_tasks f of
        Inl e \<Rightarrow> raise e f
      | Inr tasks \<Rightarrow>
          if \<not> truthy tasks then done_with [NoTasksYet] f
          else (case sort_tasks tasks of
                  Inl e \<Rightarrow> raise e f
                | Inr tasks_sorted \<Rightarrow> print_lines tasks_sorted [] f))"

section \<open>Notions for stating the display order\<close>

text \<open>
  The sort key of a well-formed task as a triple of the completion flag (0 or 1),
  the rank and the tie-break text that \<^verbatim>\<open>parse_due_key\<close> returns.
\<close>

definition clock_formats :: "string list" where
  "clock_formats = [''%H:%M'', ''%I:%M%p'', ''%I%p'']"

definition display_key :: "json \<Rightarrow> int \<times> int \<times> string" where
  "display_key t =
     (case task_key t of
        Inr k \<Rightarrow> (case num_key k of Some nk \<Rightarrow> nk | None \<Rightarrow> (0, snd k))
      | Inl e \<Rightarrow> (0, 0, []))"

definition due_rank :: "json \<Rightarrow> int" where
  "due_rank t = fst (snd (display_key t))"

definition due_text :: "json \<Rightarrow> string" where
  "due_text t = snd (snd (display_key t))"

definition is_done :: "json \<Rightarrow> bool" where
  "is_done t = (field ''done'' t = Some (JBool True))"

text \<open>The due string of a task; \<open>None\<close> when the task has no due value or an empty one.\<close>

definition due_of :: "json \<Rightarrow> string option" where
  "due_of t = (case field ''due'' t of Some (JStr s) \<Rightarrow> if s = [] then None else Some s | _ \<Rightarrow> None)"

text \<open>A due string is parseable when one of the three formats accepts it.\<close>

definition parseable :: "string \<Rightarrow> bool" where
  "parseable s = list_ex (\<lambda>fmt. isl (strptime (upper (strip s)) fmt) = False) clock_formats"

text \<open>The three groups of due values: 0 parseable, 1 unparseable, 2 no due value.\<close>

definition due_class :: "json \<Rightarrow> nat" where
  "due_class t = (case due_of t of None \<Rightarrow> 2 | Some s \<Rightarrow> if parseable s then 0 else 1)"

text \<open>
  The key as the specification words it, with the original due string, not the
  stripped one, as the last component.
\<close>

definition spec_display_key :: "json \<Rightarrow> int \<times> int \<times> string" where
  "spec_display_key t =
     (fst (display_key t), due_rank t, (case due_of t of None \<Rightarrow> [] | Some s \<Rightarrow> s))"

text \<open>A task with the given id, due value and completion flag, for the examples.\<close>

definition sample_task :: "int \<Rightarrow> json \<Rightarrow> bool \<Rightarrow> json" where
  "sample_task i due d =
     JObj [(''id'', JInt i), (''text'', JStr ''t''), (''due'', due), (''done'', JBool d),
           (''created_at'', JStr ''2024-01-01T09:00:00'')]"

section \<open>Notions for stating the round trip\<close>

text \<open>
  A value is well formed when the keys of each of its dictionaries are pairwise
  distinct, as they are in every Python dictionary.
\<close>

fun wf_json :: "json \<Rightarrow> bool" where
  "wf_json (JArr xs) = list_all wf_json xs"
| "wf_json (JObj kvs) = (distinct (map fst kvs) \<and> list_all (\<lambda>p. wf_json (snd p)) kvs)"
| "wf_json v = True"

text \<open>
  What follows a value in the text that the encoder writes: the end of the text, a
  comma, a closing bracket or brace, or a newline.
\<close>

definition value_end :: "string \<Rightarrow> bool" where
  "value_end rest = (case rest of [] \<Rightarrow> True | c # r \<Rightarrow> c \<in> set [CHR '','', CHR '']'', CHR ''}'', newline])"

text \<open>A text of ASCII characters only.\<close>

definition ascii :: "string \<Rightarrow> bool" where
  "ascii s = list_all (\<lambda>c. (of_char c :: nat) < 128) s"

section \<open>Properties of the JSON encoder and decoder\<close>

lemma hexval_hexdigit_all: "list_all (\<lambda>k. hexval (hexdigit k) = Some k) [0..<16]"
  by code_simp

lemma hexval_hexdigit: "k < 16 \<Longrightarrow> hexval (hexdigit k) = Some k"
  using hexval_hexdigit_all by (simp add: list_all_iff)

lemma scanstring_u:
  "hexval h1 = Some a \<Longrightarrow> hexval h2 = Some b \<Longrightarrow> hexval h3 = Some c \<Longrightarrow> hexval h4 = Some d
   \<Longrightarrow> a * 4096 + b * 256 + c * 16 + d < 256
   \<Longrightarrow> scanstring (backslash # CHR ''u'' # h1 # h2 # h3 # h4 # s)
       = cons_char (char_of (a * 4096 + b * 256 + c * 16 + d)) (scanstring s)"
  by simp

lemma scanstring_u_escape:
  assumes "n < 256"
  shows "scanstring (u_escape n @ s) = cons_char (char_of n) (scanstring s)"
proof -
  have d: "n div 4096 mod 16 = 0" "n div 256 mod 16 = 0" using assms by simp_all
  from assms have "n div 16 < 16" by simp
  then have "n div 16 mod 16 = n div 16" by simp
  then have e: "0 * 4096 + 0 * 256 + (n div 16 mod 16) * 16 + n mod 16 = n" by simp
  have "scanstring (backslash # CHR ''u'' # hexdigit 0 # hexdigit 0 # hexdigit (n div 16 mod 16)
            # hexdigit (n mod 16) # s)
        = cons_char (char_of (0 * 4096 + 0 * 256 + (n div 16 mod 16) * 16 + n mod 16)) (scanstring s)"
    by (rule scanstring_u) (simp_all add: hexval_hexdigit e assms)
  then show ?thesis by (simp only: u_escape_def d e append_Cons append_Nil)
qed


lemma scanstring_escape_char:
  "scanstring (escape_char c @ s) = cons_char c (scanstring s)"
proof -
  let ?n = "of_char c :: nat"
  have n: "?n < 256" by simp
  consider (special) "c \<in> set [backslash, quote, CHR 0x08, CHR 0x0C, CHR 0x0A, CHR 0x0D, CHR 0x09]"
    | (plain) "c \<notin> set [backslash, quote, CHR 0x08, CHR 0x0C, CHR 0x0A, CHR 0x0D, CHR 0x09]"
        "32 \<le> ?n" "?n \<le> 126"
    | (esc) "c \<notin> set [backslash, quote, CHR 0x08, CHR 0x0C, CHR 0x0A, CHR 0x0D, CHR 0x09]"
        "\<not> (32 \<le> ?n \<and> ?n \<le> 126)"
    by blast
  then show ?thesis
  proof cases
    case special
    then show ?thesis by (auto simp: escape_char_def unescape_def)
  next
    case plain
    then have "escape_char c = [c]" by (simp add: escape_char_def)
    moreover from plain have "scanstring (c # s) = cons_char c (scanstring s)" by simp
    ultimately show ?thesis by simp
  next
    case esc
    then have "escape_char c = u_escape ?n" by (auto simp: escape_char_def)
    with scanstring_u_escape [OF n, of s] show ?thesis by simp
  qed
qed

lemma scanstring_escaped:
  "scanstring (concat (map escape_char s) @ quote # rest) = Inr (s, rest)"
  by (induction s) (simp_all add: scanstring_escape_char cons_char_def)

lemma scan_once_string:
  "scan_once (Suc n) (encode_basestring_ascii s @ rest) = Inr (JStr s, rest)"
  by (simp add: encode_basestring_ascii_def scanstring_escaped)

lemma digit_char_props:
  assumes "k < 10"
  shows "is_digit (digit_char k)" and "digit_val (digit_char k) = k"
    and "digit_char k = CHR ''0'' \<longleftrightarrow> k = 0"
proof -
  have "list_all (\<lambda>k. is_digit (digit_char k) \<and> digit_val (digit_char k) = k
      \<and> (digit_char k = CHR ''0'' \<longleftrightarrow> k = 0)) [0..<10]"
    by code_simp
  with assms show "is_digit (digit_char k)" and "digit_val (digit_char k) = k"
    and "digit_char k = CHR ''0'' \<longleftrightarrow> k = 0"
    by (simp_all add: list_all_iff)
qed

lemma nat_of_digits_snoc: "nat_of_digits (ds @ [c]) = 10 * nat_of_digits ds + digit_val c"
  by (simp add: nat_of_digits_def)

lemma digits_props:
  "list_all is_digit (digits n) \<and> digits n \<noteq> [] \<and> nat_of_digits (digits n) = n
   \<and> (hd (digits n) = CHR ''0'' \<longleftrightarrow> n = 0)"
proof (induction n rule: digits.induct)
  case (1 n)
  show ?case
  proof (cases "n < 10")
    case True
    then have "digits n = [digit_char n]" by (simp add: digits.simps)
    with True digit_char_props [of n] show ?thesis by (simp add: nat_of_digits_def)
  next
    case False
    then have d: "digits n = digits (n div 10) @ [digit_char (n mod 10)]"
      by (subst digits.simps) simp
    from False have ih: "list_all is_digit (digits (n div 10)) \<and> digits (n div 10) \<noteq> []
        \<and> nat_of_digits (digits (n div 10)) = n div 10
        \<and> (hd (digits (n div 10)) = CHR ''0'' \<longleftrightarrow> n div 10 = 0)"
      using 1 by simp
    have m: "n mod 10 < 10" by simp
    from False have nz: "n div 10 \<noteq> 0" "n \<noteq> 0" by simp_all
    from d ih digit_char_props(1,2) [OF m] nz show ?thesis
      by (simp add: nat_of_digits_snoc)
  qed
qed

lemma takeWhile_digits:
  assumes "list_all is_digit ds" and "rest = [] \<or> \<not> is_digit (hd rest)"
  shows "takeWhile is_digit (ds @ rest) = ds" and "dropWhile is_digit (ds @ rest) = rest"
proof -
  from assms(2) have "takeWhile is_digit rest = [] \<and> dropWhile is_digit rest = rest"
    by (cases rest) auto
  with assms(1) show "takeWhile is_digit (ds @ rest) = ds" and "dropWhile is_digit (ds @ rest) = rest"
    by (induction ds) auto
qed

lemma match_integer_digits:
  assumes "rest = [] \<or> \<not> is_digit (hd rest)"
  shows "match_integer (digits n @ rest) = Some (n, rest)"
proof -
  from digits_props [of n] obtain c ds where c: "digits n = c # ds" by (cases "digits n") auto
  with digits_props [of n] have p: "is_digit c" "list_all is_digit ds" "nat_of_digits (c # ds) = n"
    "c = CHR ''0'' \<longleftrightarrow> n = 0"
    by auto
  show ?thesis
  proof (cases "n = 0")
    case True
    have "digit_char 0 = CHR ''0''" by code_simp
    with True have "digits n = ''0''" by (simp add: digits.simps)
    then show ?thesis using True by (simp add: match_integer_def)
  next
    case False
    with p c takeWhile_digits [OF p(2) assms] show ?thesis
      by (simp add: match_integer_def)
  qed
qed

lemma value_end_number:
  assumes "value_end rest"
  shows "rest = [] \<or> \<not> is_digit (hd rest)" and "\<not> starts_frac rest" and "\<not> starts_exp rest"
  using assms by (auto simp: value_end_def is_digit_def starts_frac_def starts_exp_def split: list.splits)

lemma match_number_intstr:
  assumes "value_end rest"
  shows "match_number (intstr i @ rest) = Some (Inr (JInt i, rest))"
proof (cases "i < 0")
  case True
  from digits_props [of "nat (- i)"] have "hd (digits (nat (- i))) \<noteq> CHR ''-''"
    by (cases "digits (nat (- i))") (auto simp: is_digit_def)
  with True match_integer_digits [OF value_end_number(1) [OF assms], of "nat (- i)"]
    value_end_number(2,3) [OF assms]
  show ?thesis by (simp add: match_number_def intstr_def)
next
  case False
  from digits_props [of "nat i"] obtain c ds where c: "digits (nat i) = c # ds" "c \<noteq> CHR ''-''"
    by (cases "digits (nat i)") (auto simp: is_digit_def)
  with False match_integer_digits [OF value_end_number(1) [OF assms], of "nat i"]
    value_end_number(2,3) [OF assms]
  show ?thesis by (simp add: match_number_def intstr_def)
qed

lemma skip_ws_Cons: "skip_ws (c # s) = (if json_ws c then skip_ws s else c # s)"
  by (simp add: skip_ws_def)

lemma skip_ws_spaces: "skip_ws (replicate k CHR '' '' @ s) = skip_ws s"
  by (induction k) (simp_all add: skip_ws_Cons json_ws_def)

lemma skip_ws_newline_indent: "skip_ws (newline_indent ind lvl @ s) = skip_ws s"
  by (cases ind) (simp_all add: newline_indent_def skip_ws_Cons json_ws_def skip_ws_spaces)

lemma intstr_starts: "\<exists>c r. intstr i = c # r \<and> (c = CHR ''-'' \<or> is_digit c)"
  using digits_props [of "nat i"] by (cases "digits (nat i)") (auto simp: intstr_def)

lemma iterencode_starts:
  "\<exists>c r. iterencode ind lvl v = c # r \<and> \<not> json_ws c \<and> c \<noteq> CHR '']'' \<and> c \<noteq> CHR ''}''"
proof (cases v)
  case (JInt i)
  from intstr_starts [of i] obtain c r where "intstr i = c # r" "c = CHR ''-'' \<or> is_digit c" by blast
  with JInt show ?thesis by (auto simp: json_ws_def is_digit_def)
next
  case (JArr xs)
  then show ?thesis by (cases xs) (simp_all add: json_ws_def)
next
  case (JObj kvs)
  then show ?thesis by (cases kvs) (simp_all add: json_ws_def)
qed (simp_all add: json_ws_def encode_basestring_ascii_def)

lemma skip_ws_iterencode: "skip_ws (iterencode ind lvl v @ s) = iterencode ind lvl v @ s"
  using iterencode_starts [of ind lvl v] by (auto simp: skip_ws_Cons)

lemma value_end_simps:
  "value_end []" "value_end (CHR '','' # s)" "value_end (CHR '']'' # s)" "value_end (CHR ''}'' # s)"
  "value_end (newline # s)"
  by (simp_all add: value_end_def)

lemma value_end_newline_indent:
  "value_end s \<Longrightarrow> value_end (newline_indent ind lvl @ s)"
  by (cases ind) (simp_all add: newline_indent_def value_end_def)

lemma value_end_item_separator: "value_end (item_separator ind @ s)"
  by (cases ind) (simp_all add: item_separator_def value_end_def)

lemma iterencode_nonempty: "0 < length (iterencode ind lvl v)"
  using iterencode_starts [of ind lvl v] by auto

lemma scan_once_null: "scan_once (Suc n) (''null'' @ rest) = Inr (JNull, rest)"
  by (simp add: starts_with_def)

lemma scan_once_true: "scan_once (Suc n) (''true'' @ rest) = Inr (JBool True, rest)"
  by (simp add: starts_with_def)

lemma scan_once_false: "scan_once (Suc n) (''false'' @ rest) = Inr (JBool False, rest)"
  by (simp add: starts_with_def)

lemma scan_once_number:
  assumes "c = CHR ''-'' \<or> is_digit c" and "match_number (c # s) = Some r"
  shows "scan_once (Suc n) (c # s) = r"
  using assms by (auto simp: is_digit_def starts_with_def)

lemma scan_once_int:
  assumes "value_end rest"
  shows "scan_once (Suc n) (intstr i @ rest) = Inr (JInt i, rest)"
proof -
  from intstr_starts [of i] obtain c r where c: "intstr i = c # r" "c = CHR ''-'' \<or> is_digit c"
    by blast
  from match_number_intstr [OF assms, of i] c have "match_number (c # r @ rest) = Some (Inr (JInt i, rest))"
    by simp
  from scan_once_number [OF c(2) this] c(1) show ?thesis by simp
qed

lemma scan_once_open_array:
  "scan_once (Suc n) (CHR ''['' # s) =
     (case skip_ws s of
        [] \<Rightarrow> Inl JSONDecodeError
      | d # s1 \<Rightarrow>
          if d = CHR '']'' then Inr (JArr [], s1)
          else (case array_loop n (d # s1) of
                  Inl e \<Rightarrow> Inl e
                | Inr (values, rest) \<Rightarrow> Inr (JArr values, rest)))"
  by simp

lemma scan_once_open_object:
  "scan_once (Suc n) (CHR ''{'' # s) =
     (case skip_ws s of
        [] \<Rightarrow> Inl JSONDecodeError
      | d # s1 \<Rightarrow>
          if d = CHR ''}'' then Inr (JObj [], s1)
          else if d = quote then
            (case object_loop n s1 of
               Inl e \<Rightarrow> Inl e
             | Inr (pairs, rest) \<Rightarrow> Inr (JObj (dict_of_pairs pairs), rest))
          else Inl JSONDecodeError)"
  by simp

lemma array_loop_items:
  assumes elem: "\<And>x rest n. x \<in> set (v # vs) \<Longrightarrow> value_end rest
      \<Longrightarrow> length (iterencode ind lvl x @ rest) < n
      \<Longrightarrow> scan_once n (iterencode ind lvl x @ rest) = Inr (x, rest)"
    and len: "length (iterencode ind lvl v @ iterencode_items ind lvl vs @ newline_indent ind l0
                @ CHR '']'' # rest) < n"
  shows "array_loop n (iterencode ind lvl v @ iterencode_items ind lvl vs @ newline_indent ind l0
            @ CHR '']'' # rest) = Inr (v # vs, rest)"
  using assms
proof (induction vs arbitrary: v n)
  case Nil
  from Nil.prems(2) obtain m where n: "n = Suc m" by (cases n) auto
  let ?T = "newline_indent ind l0 @ CHR '']'' # rest"
  have "value_end ?T" by (intro value_end_newline_indent) (simp add: value_end_simps)
  moreover from Nil.prems(2) have "length (iterencode ind lvl v @ ?T) < n" by simp
  ultimately have "scan_once n (iterencode ind lvl v @ ?T) = Inr (v, ?T)"
    by (intro Nil.prems(1)) simp_all
  moreover have "skip_ws ?T = CHR '']'' # rest"
    by (simp add: skip_ws_newline_indent skip_ws_Cons json_ws_def)
  ultimately show ?case using n by simp
next
  case (Cons w ws)
  from Cons.prems(2) obtain m where n: "n = Suc m" by (cases n) auto
  let ?R = "iterencode ind lvl w @ iterencode_items ind lvl ws @ newline_indent ind l0 @ CHR '']'' # rest"
  let ?T = "item_separator ind @ newline_indent ind lvl @ ?R"
  have T: "iterencode_items ind lvl (w # ws) @ newline_indent ind l0 @ CHR '']'' # rest = ?T"
    by simp
  have "value_end ?T" by (rule value_end_item_separator)
  moreover from Cons.prems(2) have "length (iterencode ind lvl v @ ?T) < n" by simp
  ultimately have s: "scan_once n (iterencode ind lvl v @ ?T) = Inr (v, ?T)"
    by (intro Cons.prems(1)) simp_all
  obtain sep where sep: "item_separator ind = CHR '','' # sep" "skip_ws (sep @ newline_indent ind lvl @ ?R) = ?R"
    by (cases ind) (simp_all add: item_separator_def skip_ws_Cons json_ws_def skip_ws_newline_indent
        skip_ws_iterencode)
  have k: "skip_ws ?T = CHR '','' # sep @ newline_indent ind lvl @ ?R"
    using sep(1) by (simp add: skip_ws_Cons json_ws_def)
  from Cons.prems(2) n sep(1) iterencode_nonempty [of ind lvl v]
  have "length ?R < m" by simp
  then have "array_loop m ?R = Inr (w # ws, rest)"
    by (intro Cons.IH Cons.prems(1)) simp_all
  with s k sep(2) n show ?case by (simp only: T) simp
qed

lemma scan_once_array_nonempty:
  "skip_ws s = c # r \<Longrightarrow> c \<noteq> CHR '']'' \<Longrightarrow> array_loop n (c # r) = Inr (xs, rest)
   \<Longrightarrow> scan_once (Suc n) (CHR ''['' # s) = Inr (JArr xs, rest)"
  by simp

lemma scan_once_object_nonempty:
  "skip_ws s = quote # r \<Longrightarrow> object_loop n r = Inr (pairs, rest)
   \<Longrightarrow> scan_once (Suc n) (CHR ''{'' # s) = Inr (JObj (dict_of_pairs pairs), rest)"
  by simp

lemma object_loop_last:
  "scanstring s = Inr (key, r0) \<Longrightarrow> skip_ws r0 = CHR '':'' # r1
   \<Longrightarrow> scan_once (Suc n) (skip_ws r1) = Inr (v, r2) \<Longrightarrow> skip_ws r2 = CHR ''}'' # r3
   \<Longrightarrow> object_loop (Suc n) s = Inr ([(key, v)], r3)"
  by simp

lemma object_loop_next:
  "scanstring s = Inr (key, r0) \<Longrightarrow> skip_ws r0 = CHR '':'' # r1
   \<Longrightarrow> scan_once (Suc n) (skip_ws r1) = Inr (v, r2) \<Longrightarrow> skip_ws r2 = CHR '','' # r3
   \<Longrightarrow> skip_ws r3 = quote # r4 \<Longrightarrow> object_loop n r4 = Inr (pairs, r5)
   \<Longrightarrow> object_loop (Suc n) s = Inr ((key, v) # pairs, r5)"
  by simp

lemma object_loop_members:
  assumes elem: "\<And>p rest n. p \<in> set ((k, v) # kvs) \<Longrightarrow> value_end rest
      \<Longrightarrow> length (iterencode ind lvl (snd p) @ rest) < n
      \<Longrightarrow> scan_once n (iterencode ind lvl (snd p) @ rest) = Inr (snd p, rest)"
    and len: "length (concat (map escape_char k) @ quote # key_separator @ iterencode ind lvl v
                @ iterencode_members ind lvl kvs @ newline_indent ind l0 @ CHR ''}'' # rest) < n"
  shows "object_loop n (concat (map escape_char k) @ quote # key_separator @ iterencode ind lvl v
            @ iterencode_members ind lvl kvs @ newline_indent ind l0 @ CHR ''}'' # rest)
         = Inr ((k, v) # kvs, rest)"
  using assms
proof (induction kvs arbitrary: k v n)
  case Nil
  from Nil.prems(2) obtain m where n: "n = Suc m" by (cases n) auto
  let ?T = "newline_indent ind l0 @ CHR ''}'' # rest"
  have "value_end ?T" by (intro value_end_newline_indent) (simp add: value_end_simps)
  moreover from Nil.prems(2) have "length (iterencode ind lvl v @ ?T) < n" by simp
  ultimately have "scan_once n (iterencode ind lvl (snd (k, v)) @ ?T) = Inr (snd (k, v), ?T)"
    by (intro Nil.prems(1)) simp_all
  then have s: "scan_once (Suc m) (iterencode ind lvl v @ ?T) = Inr (v, ?T)" using n by simp
  have t: "skip_ws ?T = CHR ''}'' # rest"
    by (simp add: skip_ws_newline_indent skip_ws_Cons json_ws_def)
  have c: "scanstring (concat (map escape_char k) @ quote # key_separator @ iterencode ind lvl v @ ?T)
      = Inr (k, key_separator @ iterencode ind lvl v @ ?T)"
    by (rule scanstring_escaped)
  have k1: "skip_ws (key_separator @ iterencode ind lvl v @ ?T)
      = CHR '':'' # CHR '' '' # iterencode ind lvl v @ ?T"
    by (simp add: skip_ws_Cons json_ws_def)
  have k2: "scan_once (Suc m) (skip_ws (CHR '' '' # iterencode ind lvl v @ ?T)) = Inr (v, ?T)"
    using s by (simp add: skip_ws_Cons json_ws_def skip_ws_iterencode)
  from object_loop_last [OF c k1 k2 t] n show ?case by simp
next
  case (Cons p ps)
  from Cons.prems(2) obtain m where n: "n = Suc m" by (cases n) auto
  let ?R = "concat (map escape_char (fst p)) @ quote # key_separator @ iterencode ind lvl (snd p)
      @ iterencode_members ind lvl ps @ newline_indent ind l0 @ CHR ''}'' # rest"
  let ?T = "item_separator ind @ newline_indent ind lvl @ quote # ?R"
  have T: "iterencode_members ind lvl (p # ps) @ newline_indent ind l0 @ CHR ''}'' # rest = ?T"
    by (simp add: encode_basestring_ascii_def)
  have "value_end ?T" by (rule value_end_item_separator)
  moreover from Cons.prems(2) have "length (iterencode ind lvl v @ ?T) < n"
    by (simp add: encode_basestring_ascii_def)
  ultimately have "scan_once n (iterencode ind lvl (snd (k, v)) @ ?T) = Inr (snd (k, v), ?T)"
    by (intro Cons.prems(1)) simp_all
  then have s: "scan_once (Suc m) (iterencode ind lvl v @ ?T) = Inr (v, ?T)" using n by simp
  obtain sep where sep: "item_separator ind = CHR '','' # sep"
      "skip_ws (sep @ newline_indent ind lvl @ quote # ?R) = quote # ?R"
    by (cases ind) (simp_all add: item_separator_def skip_ws_Cons json_ws_def skip_ws_newline_indent)
  have k: "skip_ws ?T = CHR '','' # sep @ newline_indent ind lvl @ quote # ?R"
    using sep(1) by (simp add: skip_ws_Cons json_ws_def)
  from Cons.prems(2) n sep(1) iterencode_nonempty [of ind lvl v]
  have "length ?R < m" by (simp add: encode_basestring_ascii_def)
  then have "object_loop m ?R = Inr ((fst p, snd p) # ps, rest)"
    by (intro Cons.IH Cons.prems(1)) simp_all
  then have r: "object_loop m ?R = Inr (p # ps, rest)" by simp
  have c: "scanstring (concat (map escape_char k) @ quote # key_separator @ iterencode ind lvl v @ ?T)
      = Inr (k, key_separator @ iterencode ind lvl v @ ?T)"
    by (rule scanstring_escaped)
  have k1: "skip_ws (key_separator @ iterencode ind lvl v @ ?T)
      = CHR '':'' # CHR '' '' # iterencode ind lvl v @ ?T"
    by (simp add: skip_ws_Cons json_ws_def)
  have k2: "scan_once (Suc m) (skip_ws (CHR '' '' # iterencode ind lvl v @ ?T)) = Inr (v, ?T)"
    using s by (simp add: skip_ws_Cons json_ws_def skip_ws_iterencode)
  from object_loop_next [OF c k1 k2 k sep(2) r]
  have "object_loop (Suc m) (concat (map escape_char k) @ quote # key_separator @ iterencode ind lvl v @ ?T)
      = Inr ((k, v) # p # ps, rest)" .
  with n show ?case by (simp only: T)
qed

lemma setitem_fresh: "k \<notin> set (map fst d) \<Longrightarrow> setitem k v d = d @ [(k, v)]"
  by (induction d) auto

lemma dict_of_pairs_distinct:
  "distinct (map fst kvs) \<Longrightarrow> dict_of_pairs kvs = kvs"
proof -
  have "\<And>acc. distinct (map fst (acc @ kvs)) \<Longrightarrow>
      foldl (\<lambda>d p. setitem (fst p) (snd p) d) acc kvs = acc @ kvs"
  proof (induction kvs)
    case Nil
    show ?case by simp
  next
    case (Cons p ps)
    from Cons.prems have "fst p \<notin> set (map fst acc)" by auto
    then have "setitem (fst p) (snd p) acc = acc @ [p]" by (simp add: setitem_fresh)
    moreover from Cons.prems have "distinct (map fst ((acc @ [p]) @ ps))" by simp
    ultimately show ?case using Cons.IH [of "acc @ [p]"] by simp
  qed
  from this [of "[]"] show "distinct (map fst kvs) \<Longrightarrow> dict_of_pairs kvs = kvs"
    by (simp add: dict_of_pairs_def)
qed

theorem scan_once_iterencode:
  assumes "wf_json v" and "value_end rest" and "length (iterencode ind lvl v @ rest) < n"
  shows "scan_once n (iterencode ind lvl v @ rest) = Inr (v, rest)"
  using assms
proof (induction v arbitrary: lvl rest n)
  case JNull
  then obtain m where "n = Suc m" by (cases n) auto
  then show ?case by (simp only: iterencode.simps scan_once_null)
next
  case (JBool b)
  then obtain m where "n = Suc m" by (cases n) auto
  then show ?case by (cases b) (simp_all only: iterencode.simps scan_once_true scan_once_false if_True if_False)
next
  case (JInt i)
  then obtain m where "n = Suc m" by (cases n) auto
  with JInt.prems(2) show ?case by (simp only: iterencode.simps scan_once_int)
next
  case (JStr s)
  then obtain m where "n = Suc m" by (cases n) auto
  then show ?case by (simp only: iterencode.simps scan_once_string)
next
  case (JArr xs)
  from JArr.prems(3) obtain m where n: "n = Suc m" by (cases n) auto
  show ?case
  proof (cases xs)
    case Nil
    with n show ?thesis by (simp add: skip_ws_Cons json_ws_def)
  next
    case (Cons x xs')
    let ?R = "iterencode ind (Suc lvl) x @ iterencode_items ind (Suc lvl) xs'
        @ newline_indent ind lvl @ CHR '']'' # rest"
    have e: "iterencode ind lvl (JArr xs) @ rest = CHR ''['' # newline_indent ind (Suc lvl) @ ?R"
      using Cons by simp
    have sk: "skip_ws (newline_indent ind (Suc lvl) @ ?R) = ?R"
      by (simp add: skip_ws_newline_indent skip_ws_iterencode)
    obtain c r where c: "?R = c # r" "c \<noteq> CHR '']''"
      using iterencode_starts [of ind "Suc lvl" x] by auto
    from JArr.prems(3) e n have "length ?R < m" by simp
    moreover have "\<And>y rest n. y \<in> set (x # xs') \<Longrightarrow> value_end rest
        \<Longrightarrow> length (iterencode ind (Suc lvl) y @ rest) < n
        \<Longrightarrow> scan_once n (iterencode ind (Suc lvl) y @ rest) = Inr (y, rest)"
      using JArr.IH JArr.prems(1) Cons by (auto simp: list_all_iff)
    ultimately have "array_loop m ?R = Inr (x # xs', rest)"
      by (intro array_loop_items)
    with c have "array_loop m (c # r) = Inr (xs, rest)" using Cons by simp
    moreover from sk c have "skip_ws (newline_indent ind (Suc lvl) @ ?R) = c # r" by simp
    ultimately have "scan_once (Suc m) (CHR ''['' # newline_indent ind (Suc lvl) @ ?R)
        = Inr (JArr xs, rest)"
      using c(2) by (intro scan_once_array_nonempty)
    with n show ?thesis by (simp only: e)
  qed
next
  case (JObj kvs)
  from JObj.prems(3) obtain m where n: "n = Suc m" by (cases n) auto
  show ?case
  proof (cases kvs)
    case Nil
    with n show ?thesis by (simp add: skip_ws_Cons json_ws_def)
  next
    case (Cons p ps)
    let ?R = "concat (map escape_char (fst p)) @ quote # key_separator
        @ iterencode ind (Suc lvl) (snd p) @ iterencode_members ind (Suc lvl) ps
        @ newline_indent ind lvl @ CHR ''}'' # rest"
    have e: "iterencode ind lvl (JObj kvs) @ rest
        = CHR ''{'' # newline_indent ind (Suc lvl) @ quote # ?R"
      using Cons by (simp add: encode_basestring_ascii_def)
    have sk: "skip_ws (newline_indent ind (Suc lvl) @ quote # ?R) = quote # ?R"
      by (simp add: skip_ws_newline_indent skip_ws_Cons json_ws_def)
    from JObj.prems(3) e n have "length ?R < m" by simp
    moreover have "\<And>q rest n. q \<in> set ((fst p, snd p) # ps) \<Longrightarrow> value_end rest
        \<Longrightarrow> length (iterencode ind (Suc lvl) (snd q) @ rest) < n
        \<Longrightarrow> scan_once n (iterencode ind (Suc lvl) (snd q) @ rest) = Inr (snd q, rest)"
    proof -
      fix q rest n
      assume q: "q \<in> set ((fst p, snd p) # ps)" and "value_end rest"
        and "length (iterencode ind (Suc lvl) (snd q) @ rest) < n"
      from q Cons have "q \<in> set kvs" by auto
      moreover have "snd q \<in> Basic_BNFs.snds q" by (cases q) simp
      moreover from \<open>q \<in> set kvs\<close> JObj.prems(1) have "wf_json (snd q)" by (simp add: list_all_iff)
      ultimately show "scan_once n (iterencode ind (Suc lvl) (snd q) @ rest) = Inr (snd q, rest)"
        using JObj.IH \<open>value_end rest\<close> \<open>length (iterencode ind (Suc lvl) (snd q) @ rest) < n\<close>
        by blast
    qed
    ultimately have "object_loop m ?R = Inr ((fst p, snd p) # ps, rest)"
      by (intro object_loop_members)
    then have "object_loop m ?R = Inr (kvs, rest)" using Cons by simp
    moreover from JObj.prems(1) have "dict_of_pairs kvs = kvs" by (simp add: dict_of_pairs_distinct)
    ultimately have "scan_once (Suc m) (CHR ''{'' # newline_indent ind (Suc lvl) @ quote # ?R)
        = Inr (JObj kvs, rest)"
      using scan_once_object_nonempty [OF sk, of m kvs rest] by simp
    with n show ?thesis by (simp only: e)
  qed
qed

theorem loads_dumps:
  assumes "wf_json v"
  shows "loads (dumps ind v) = Inr v"
proof -
  have "scan_once (Suc (length (iterencode ind 0 v))) (iterencode ind 0 v @ []) = Inr (v, [])"
    using assms by (intro scan_once_iterencode) (simp_all add: value_end_simps)
  moreover have "skip_ws (iterencode ind 0 v) = iterencode ind 0 v"
    using skip_ws_iterencode [of ind 0 v "[]"] by simp
  moreover have "skip_ws [] = []" by (simp add: skip_ws_def)
  ultimately show ?thesis by (simp add: loads_def dumps_def)
qed

lemma ascii_simps:
  "ascii []" "ascii (c # s) \<longleftrightarrow> (of_char c :: nat) < 128 \<and> ascii s"
  "ascii (s @ t) \<longleftrightarrow> ascii s \<and> ascii t"
  by (simp_all add: ascii_def)

lemma ascii_replicate: "ascii (replicate k CHR '' '')"
  by (induction k) (simp_all add: ascii_simps)

lemma ascii_concat: "(\<And>x. x \<in> set xs \<Longrightarrow> ascii (f x)) \<Longrightarrow> ascii (concat (map f xs))"
  by (induction xs) (simp_all add: ascii_simps)

lemma encode_utf8_ascii: "ascii s \<Longrightarrow> encode_utf8 s = s"
  by (induction s) (simp_all add: ascii_simps encode_utf8_def encode_char_def)

lemma utf8_points_ascii: "list_all (\<lambda>b. b < 128) bs \<Longrightarrow> utf8_points bs = Some bs"
  by (induction bs) simp_all

lemma decode_utf8_ascii:
  assumes "ascii s"
  shows "decode_utf8 s = Inr s"
proof -
  from assms have a: "list_all (\<lambda>b. b < 128) (map of_char s :: nat list)"
    by (simp add: ascii_def list_all_iff)
  then have "list_all (\<lambda>b. b < 256) (map of_char s :: nat list)"
    by (auto simp: list_all_iff)
  moreover have "map char_of (map of_char s :: nat list) = s" by (simp add: comp_def)
  ultimately show ?thesis using utf8_points_ascii [OF a] by (simp add: decode_utf8_def)
qed

lemma ascii_hexdigit: "k < 16 \<Longrightarrow> (of_char (hexdigit k) :: nat) < 128"
proof -
  have "list_all (\<lambda>k. (of_char (hexdigit k) :: nat) < 128) [0..<16]" by code_simp
  then show "k < 16 \<Longrightarrow> (of_char (hexdigit k) :: nat) < 128" by (simp add: list_all_iff)
qed

lemma ascii_escape_char: "ascii (escape_char c)"
  by (auto simp: escape_char_def u_escape_def ascii_simps ascii_hexdigit)

lemma ascii_basestring: "ascii (encode_basestring_ascii s)"
  by (simp add: encode_basestring_ascii_def ascii_simps ascii_concat ascii_escape_char)

lemma ascii_digits: "ascii (digits n)"
proof -
  have d: "\<And>k. k < 10 \<Longrightarrow> (of_char (digit_char k) :: nat) < 128"
    by (simp add: digit_char_def)
  show ?thesis
  proof (induction n rule: digits.induct)
    case (1 n)
    show ?case
    proof (cases "n < 10")
      case True
      then show ?thesis by (simp add: digits.simps ascii_simps d)
    next
      case False
      with 1 have "ascii (digits (n div 10))" by simp
      moreover have "n mod 10 < 10" by simp
      ultimately show ?thesis using False by (subst digits.simps) (simp add: ascii_simps d)
    qed
  qed
qed

lemma ascii_intstr: "ascii (intstr i)"
  by (simp add: intstr_def ascii_simps ascii_digits)

lemma ascii_newline_indent: "ascii (newline_indent ind lvl)"
  by (cases ind) (simp_all add: newline_indent_def ascii_simps ascii_replicate)

lemma ascii_item_separator: "ascii (item_separator ind)"
  by (cases ind) (simp_all add: item_separator_def ascii_simps)

lemma ascii_iterencode:
  "ascii (iterencode ind lvl v)"
  "ascii (iterencode_items ind lvl vs)"
  "ascii (iterencode_members ind lvl kvs)"
  by (induction ind lvl v and ind lvl vs and ind lvl kvs
      rule: iterencode_iterencode_items_iterencode_members.induct)
    (simp_all add: ascii_simps ascii_intstr ascii_basestring ascii_newline_indent ascii_item_separator)

lemma ascii_dumps: "ascii (dumps ind v)"
  by (simp add: dumps_def ascii_iterencode)

theorem load_save_tasks: "wf_json v \<Longrightarrow> load_tasks (save_tasks v) = Inr v"
  by (simp add: load_tasks_def save_tasks_def encode_utf8_ascii decode_utf8_ascii ascii_dumps loads_dumps)

lemma setitem_keys: "fst ` set (setitem k v d) = insert k (fst ` set d)"
  by (induction d) auto

lemma setitem_distinct: "distinct (map fst d) \<Longrightarrow> distinct (map fst (setitem k v d))"
  by (induction d) (auto simp: setitem_keys)

lemma setitem_all: "list_all P d \<Longrightarrow> P (k, v) \<Longrightarrow> list_all P (setitem k v d)"
  by (induction d) auto

lemma dict_of_pairs_wf:
  assumes "list_all (\<lambda>p. wf_json (snd p)) ps"
  shows "distinct (map fst (dict_of_pairs ps)) \<and> list_all (\<lambda>p. wf_json (snd p)) (dict_of_pairs ps)"
proof -
  have "\<And>acc. distinct (map fst acc) \<Longrightarrow> list_all (\<lambda>p. wf_json (snd p)) acc
      \<Longrightarrow> list_all (\<lambda>p. wf_json (snd p)) ps
      \<Longrightarrow> distinct (map fst (foldl (\<lambda>d p. setitem (fst p) (snd p) d) acc ps))
          \<and> list_all (\<lambda>p. wf_json (snd p)) (foldl (\<lambda>d p. setitem (fst p) (snd p) d) acc ps)"
  proof (induction ps)
    case Nil
    then show ?case by simp
  next
    case (Cons p ps)
    from Cons.prems have "distinct (map fst (setitem (fst p) (snd p) acc))"
      and "list_all (\<lambda>p. wf_json (snd p)) (setitem (fst p) (snd p) acc)"
      by (simp_all add: setitem_distinct setitem_all)
    with Cons.IH [of "setitem (fst p) (snd p) acc"] Cons.prems(3) show ?case by simp
  qed
  from this [of "[]"] assms show ?thesis by (simp add: dict_of_pairs_def)
qed

lemma match_number_wf: "match_number s = Some (Inr (v, r)) \<Longrightarrow> wf_json v"
  by (auto simp: match_number_def Let_def split: option.splits if_splits prod.splits)

lemma scan_wf:
  "(\<forall>s v r. scan_once n s = Inr (v, r) \<longrightarrow> wf_json v)
   \<and> (\<forall>s vs r. array_loop n s = Inr (vs, r) \<longrightarrow> list_all wf_json vs)
   \<and> (\<forall>s ps r. object_loop n s = Inr (ps, r) \<longrightarrow> list_all (\<lambda>p. wf_json (snd p)) ps)"
proof (induction n)
  case 0
  show ?case by simp
next
  case (Suc n)
  from Suc have ih1: "\<And>s v r. scan_once n s = Inr (v, r) \<Longrightarrow> wf_json v"
    and ih2: "\<And>s vs r. array_loop n s = Inr (vs, r) \<Longrightarrow> list_all wf_json vs"
    and ih3: "\<And>s ps r. object_loop n s = Inr (ps, r) \<Longrightarrow> list_all (\<lambda>p. wf_json (snd p)) ps"
    by blast+
  have scan: "\<And>s v r. scan_once (Suc n) s = Inr (v, r) \<Longrightarrow> wf_json v"
  proof -
    fix s v r assume a: "scan_once (Suc n) s = Inr (v, r)"
    show "wf_json v"
    proof (cases s)
      case Nil
      with a show ?thesis by simp
    next
      case (Cons c s')
      with a show ?thesis
        by (auto split: if_splits sum.splits list.splits option.splits prod.splits
            dest: match_number_wf ih2 dest!: ih3 simp: dict_of_pairs_wf)
    qed
  qed
  have arr: "\<And>s vs r. array_loop (Suc n) s = Inr (vs, r) \<Longrightarrow> list_all wf_json vs"
    by (auto split: sum.splits list.splits if_splits prod.splits dest: scan ih2
        simp del: scan_once.simps)
  have obj: "\<And>s ps r. object_loop (Suc n) s = Inr (ps, r) \<Longrightarrow> list_all (\<lambda>p. wf_json (snd p)) ps"
    by (auto split: sum.splits list.splits if_splits prod.splits dest: scan ih3
        simp del: scan_once.simps)
  from scan arr obj show ?case by blast
qed

lemma scan_once_wf: "scan_once n s = Inr (v, r) \<Longrightarrow> wf_json v"
  using scan_wf [of n] by blast

theorem loads_wf:
  assumes "loads s = Inr v"
  shows "wf_json v"
proof -
  from assms obtain r where "scan_once (Suc (length s)) (skip_ws s) = Inr (v, r)"
    by (auto simp: loads_def simp del: scan_once.simps split: sum.splits if_splits)
  then show ?thesis by (rule scan_once_wf)
qed

lemma length_skip_ws: "length (skip_ws s) \<le> length s"
  by (simp add: skip_ws_def length_dropWhile_le)

lemma skip_ws_Cons_length: "skip_ws s = d # s1 \<Longrightarrow> length s1 < length s"
  using length_skip_ws [of s] by simp

lemma cons_char_Inr: "cons_char c x = Inr (t, r) \<Longrightarrow> \<exists>t'. x = Inr (t', r)"
  by (auto simp: cons_char_def split: sum.splits)

lemma cons_char_Inl: "cons_char c x = Inl e \<Longrightarrow> x = Inl e"
  by (auto simp: cons_char_def split: sum.splits)

lemma scanstring_length: "scanstring s = Inr (t, r) \<Longrightarrow> length r < length s"
proof (induction "length s" arbitrary: s t rule: less_induct)
  case less
  have ih: "\<And>s' t'. scanstring s' = Inr (t', r) \<Longrightarrow> length s' < length s \<Longrightarrow> length r < length s'"
    using less.hyps by blast
  show ?case
  proof (cases s)
    case Nil
    with less.prems show ?thesis by simp
  next
    case (Cons c s0)
    with less.prems show ?thesis
      by (auto split: if_splits list.splits option.splits dest!: cons_char_Inr
          dest!: ih simp: Let_def)
  qed
qed

lemma scanstring_fuel: "scanstring s \<noteq> Inl FuelExhausted"
proof (induction "length s" arbitrary: s rule: less_induct)
  case less
  have ih: "\<And>s'. scanstring s' = Inl FuelExhausted \<Longrightarrow> length s' < length s \<Longrightarrow> False"
    using less.hyps by blast
  show ?case
  proof (cases s)
    case Nil
    then show ?thesis by simp
  next
    case (Cons c s0)
    show ?thesis
    proof
      assume "scanstring s = Inl FuelExhausted"
      with Cons show False
        by (auto split: if_splits list.splits option.splits dest!: cons_char_Inl
            dest!: ih simp: Let_def)
    qed
  qed
qed

lemma match_integer_length: "match_integer s = Some (k, r) \<Longrightarrow> length r < length s"
  by (cases s) (auto simp: match_integer_def length_dropWhile_le less_Suc_eq_le split: if_splits)

lemma match_number_length: "match_number s = Some (Inr (v, r)) \<Longrightarrow> length r < length s"
  by (cases s) (auto simp: match_number_def Let_def split: option.splits if_splits
      dest!: match_integer_length)

lemma match_number_fuel: "match_number s \<noteq> Some (Inl FuelExhausted)"
  by (auto simp: match_number_def Let_def split: option.splits if_splits prod.splits)


lemma scan_fuel:
  "(\<forall>s. length s < n \<longrightarrow> scan_once n s \<noteq> Inl FuelExhausted
        \<and> (\<forall>v r. scan_once n s = Inr (v, r) \<longrightarrow> length r < length s))
   \<and> (\<forall>s. length s < n \<longrightarrow> array_loop n s \<noteq> Inl FuelExhausted
        \<and> (\<forall>vs r. array_loop n s = Inr (vs, r) \<longrightarrow> length r < length s))
   \<and> (\<forall>s. length s < n \<longrightarrow> object_loop n s \<noteq> Inl FuelExhausted
        \<and> (\<forall>ps r. object_loop n s = Inr (ps, r) \<longrightarrow> length r < length s))"
proof (induction n)
  case 0
  show ?case by simp
next
  case (Suc n)
  from Suc have a1: "\<And>s. array_loop n s = Inl FuelExhausted \<Longrightarrow> length s < n \<Longrightarrow> False"
    and a2: "\<And>s vs r. array_loop n s = Inr (vs, r) \<Longrightarrow> length s < n \<Longrightarrow> length r < length s"
    and o1: "\<And>s. object_loop n s = Inl FuelExhausted \<Longrightarrow> length s < n \<Longrightarrow> False"
    and o2: "\<And>s ps r. object_loop n s = Inr (ps, r) \<Longrightarrow> length s < n \<Longrightarrow> length r < length s"
    by blast+
  have s1: "\<And>s. scan_once (Suc n) s = Inl FuelExhausted \<Longrightarrow> length s < Suc n \<Longrightarrow> False"
  proof -
    fix s assume a: "scan_once (Suc n) s = Inl FuelExhausted" and l: "length s < Suc n"
    show False
    proof (cases s)
      case Nil
      with a show ?thesis by simp
    next
      case (Cons c s')
      with a l scanstring_fuel match_number_fuel show ?thesis
        by (auto split: if_splits sum.splits list.splits option.splits prod.splits
            dest!: skip_ws_Cons_length dest: a1 o1)
    qed
  qed
  have s2: "\<And>s v r. scan_once (Suc n) s = Inr (v, r) \<Longrightarrow> length s < Suc n \<Longrightarrow> length r < length s"
  proof -
    fix s v r assume a: "scan_once (Suc n) s = Inr (v, r)" and l: "length s < Suc n"
    show "length r < length s"
    proof (cases s)
      case Nil
      with a show ?thesis by simp
    next
      case (Cons c s')
      have sk: "\<And>d t. skip_ws s' = d # t \<Longrightarrow> length t < length s' \<and> length (d # t) \<le> length s'"
        using length_skip_ws [of s'] by auto
      from a Cons consider
        (str) x where "scanstring s' = Inr (x, r)"
        | (obj0) "skip_ws s' = CHR ''}'' # r"
        | (obj) t ps where "skip_ws s' = quote # t" "object_loop n t = Inr (ps, r)"
        | (arr0) "skip_ws s' = CHR '']'' # r"
        | (arr) d t vs where "skip_ws s' = d # t" "array_loop n (d # t) = Inr (vs, r)"
        | (lit) k where "r = drop k s'"
        | (num) "match_number (c # s') = Some (Inr (v, r))"
        by (auto split: if_splits sum.splits list.splits option.splits prod.splits)
      then show ?thesis
      proof cases
        case str
        with Cons scanstring_length [of s' x r] show ?thesis by simp
      next
        case obj0
        with Cons sk show ?thesis by auto
      next
        case obj
        with sk [OF obj(1)] l Cons o2 [OF obj(2)] show ?thesis by simp
      next
        case arr0
        with Cons sk show ?thesis by auto
      next
        case arr
        with sk [OF arr(1)] l Cons a2 [OF arr(2)] show ?thesis by simp
      next
        case lit
        with Cons show ?thesis by simp
      next
        case num
        with Cons match_number_length show ?thesis by blast
      qed
    qed
  qed
  have ar: "\<And>s. length s < Suc n \<Longrightarrow> array_loop (Suc n) s \<noteq> Inl FuelExhausted
      \<and> (\<forall>vs r. array_loop (Suc n) s = Inr (vs, r) \<longrightarrow> length r < length s)"
  proof -
    fix s :: string assume l: "length s < Suc n"
    show "array_loop (Suc n) s \<noteq> Inl FuelExhausted
      \<and> (\<forall>vs r. array_loop (Suc n) s = Inr (vs, r) \<longrightarrow> length r < length s)"
    proof (cases "scan_once (Suc n) s")
      case (Inl e)
      with s1 [OF _ l] show ?thesis by (auto simp del: scan_once.simps)
    next
      case (Inr x)
      obtain v rest where x: "x = (v, rest)" by (cases x)
      from s2 [OF _ l] Inr x have lr: "length rest < length s" by simp
      show ?thesis
      proof (cases "skip_ws rest")
        case Nil
        with Inr x show ?thesis by (simp del: scan_once.simps)
      next
        case (Cons d t)
        from skip_ws_Cons_length [OF Cons] have lt: "length t < length rest" .
        have lk: "length (skip_ws t) < n" using length_skip_ws [of t] lt lr l by simp
        have lk2: "length (skip_ws t) < length s" using length_skip_ws [of t] lt lr by simp
        from Inr x Cons lt lr a1 [OF _ lk] a2 [OF _ lk] lk2 show ?thesis
          by (auto simp del: scan_once.simps split: sum.splits if_splits)
      qed
    qed
  qed
  have ob: "\<And>s. length s < Suc n \<Longrightarrow> object_loop (Suc n) s \<noteq> Inl FuelExhausted
      \<and> (\<forall>ps r. object_loop (Suc n) s = Inr (ps, r) \<longrightarrow> length r < length s)"
  proof -
    fix s :: string assume l: "length s < Suc n"
    show "object_loop (Suc n) s \<noteq> Inl FuelExhausted
      \<and> (\<forall>ps r. object_loop (Suc n) s = Inr (ps, r) \<longrightarrow> length r < length s)"
    proof (cases "scanstring s")
      case (Inl e)
      with scanstring_fuel [of s] show ?thesis by (auto simp del: scan_once.simps)
    next
      case (Inr x)
      obtain key rest where x: "x = (key, rest)" by (cases x)
      from scanstring_length Inr x have lr: "length rest < length s" by blast
      show ?thesis
      proof (cases "skip_ws rest")
        case Nil
        with Inr x show ?thesis by (simp del: scan_once.simps)
      next
        case (Cons d t)
        from skip_ws_Cons_length [OF Cons] have lt: "length t < length rest" .
        have l1: "length (skip_ws t) < Suc n" using length_skip_ws [of t] lt lr l by simp
        have l1s: "length (skip_ws t) < length s" using length_skip_ws [of t] lt lr by simp
        show ?thesis
        proof (cases "scan_once (Suc n) (skip_ws t)")
          case (Inl e)
          with s1 [OF _ l1] Inr x Cons show ?thesis by (auto simp del: scan_once.simps)
        next
          case (Inr y)
          note y = Inr
          obtain v rest1 where yv: "y = (v, rest1)" by (cases y)
          from s2 [OF _ l1] y yv have l2: "length rest1 < length (skip_ws t)" by simp
          show ?thesis
          proof (cases "skip_ws rest1")
            case Nil
            with \<open>scanstring s = Inr x\<close> x Cons y yv show ?thesis
              by (simp del: scan_once.simps)
          next
            case (Cons d1 t1)
            note c1 = Cons
            from skip_ws_Cons_length [OF c1] have l3: "length t1 < length rest1" .
            show ?thesis
            proof (cases "skip_ws t1")
              case Nil
              with \<open>scanstring s = Inr x\<close> x \<open>skip_ws rest = d # t\<close> y yv c1 l3 l2 l1s show ?thesis
                by (auto simp del: scan_once.simps)
            next
              case (Cons d2 t2)
              from skip_ws_Cons_length [OF Cons] have l4: "length t2 < length t1" .
              have l5: "length t2 < n" using l4 l3 l2 l1 by simp
              have l6: "length t2 < length s" using l4 l3 l2 l1s by simp
              from \<open>scanstring s = Inr x\<close> x \<open>skip_ws rest = d # t\<close> y yv c1 Cons l3 l2 l1s
                o1 [OF _ l5] o2 [OF _ l5] l6
              show ?thesis
                by (auto simp del: scan_once.simps split: sum.splits)
            qed
          qed
        qed
      qed
    qed
  qed
  from s1 s2 ar ob show ?case by blast
qed

theorem loads_fuel: "loads s \<noteq> Inl FuelExhausted"
proof -
  have "length (skip_ws s) < Suc (length s)" using length_skip_ws [of s] by simp
  with scan_fuel [of "Suc (length s)"]
  have "scan_once (Suc (length s)) (skip_ws s) \<noteq> Inl FuelExhausted" by blast
  then show ?thesis
    by (auto simp: loads_def simp del: scan_once.simps split: sum.splits)
qed

section \<open>Properties of the task store\<close>

lemma has_D: "has k P kvs \<Longrightarrow> \<exists>v. map_of kvs k = Some v \<and> P v"
  by (auto simp: has_def split: option.splits)

lemma is_int_D: "is_int v \<Longrightarrow> \<exists>i. v = JInt i"
  by (cases v) auto

lemma is_str_D: "is_str v \<Longrightarrow> \<exists>s. v = JStr s"
  by (cases v) auto

lemma is_bool_D: "is_bool v \<Longrightarrow> \<exists>b. v = JBool b"
  by (cases v) auto

lemma is_due_D: "is_due v \<Longrightarrow> v = JNull \<or> (\<exists>s. v = JStr s)"
  by (cases v) auto

lemma is_task_obj:
  assumes "is_task t"
  obtains kvs tx d c b where "t = JObj kvs" "map_of kvs ''id'' = Some (JInt (id_of t))"
    "map_of kvs ''text'' = Some (JStr tx)" "map_of kvs ''due'' = Some d"
    "d = JNull \<or> (\<exists>s. d = JStr s)"
    "map_of kvs ''done'' = Some (JBool b)" "map_of kvs ''created_at'' = Some (JStr c)"
proof -
  from assms obtain kvs where t: "t = JObj kvs" and h: "has ''id'' is_int kvs"
    "has ''text'' is_str kvs" "has ''due'' is_due kvs" "has ''done'' is_bool kvs"
    "has ''created_at'' is_str kvs"
    by (cases t) (auto simp: is_task_def)
  from h(1) obtain i where i: "map_of kvs ''id'' = Some (JInt i)"
    by (auto dest!: has_D is_int_D)
  from h(2) obtain tx where tx: "map_of kvs ''text'' = Some (JStr tx)"
    by (auto dest!: has_D is_str_D)
  from h(3) obtain d where d: "map_of kvs ''due'' = Some d" "d = JNull \<or> (\<exists>s. d = JStr s)"
    by (auto dest!: has_D is_due_D)
  from h(4) obtain b where b: "map_of kvs ''done'' = Some (JBool b)"
    by (auto dest!: has_D is_bool_D)
  from h(5) obtain c where c: "map_of kvs ''created_at'' = Some (JStr c)"
    by (auto dest!: has_D is_str_D)
  from t i have "id_of t = i" by (simp add: id_of_def)
  with t i tx d b c that show thesis by blast
qed

lemma is_task_id: "is_task t \<Longrightarrow> subscript t ''id'' = Inr (JInt (id_of t))"
  by (erule is_task_obj) simp

lemma mark_absent:
  "list_all is_task ts \<Longrightarrow> i \<notin> set (map id_of ts) \<Longrightarrow> mark b i ts = Inr None"
  by (induction ts) (auto simp: is_task_id eq_int_def)

text \<open>
  Claim C4. For every stored collection of tasks and every id that no task of it
  carries, \<^verbatim>\<open>cmd_done\<close> and \<^verbatim>\<open>cmd_undone\<close> end without an exception, print the
  not-found line and leave the store file as it was: nothing is written.
\<close>

theorem mark_missing_id:
  assumes "load_tasks f = Inr (JArr ts)"
    and "list_all is_task ts"
    and "i \<notin> set (map id_of ts)"
  shows "cmd_done i f = \<lparr>raised = None, printed = [TaskNotFound i], store = f\<rparr>
       \<and> cmd_undone i f = \<lparr>raised = None, printed = [TaskNotFound i], store = f\<rparr>"
  using assms by (simp add: cmd_done_def cmd_undone_def cmd_mark_def mark_absent done_with_def)

theorem mark_missing_id_witness:
  "load_tasks (Some ''[{\"id\": 1, \"text\": \"a\", \"due\": null, \"done\": false, \"created_at\": \"t\"}]'')
     = Inr (JArr [JObj [(''id'', JInt 1), (''text'', JStr ''a''), (''due'', JNull),
                        (''done'', JBool False), (''created_at'', JStr ''t'')]])
   \<and> cmd_done 2 (Some ''[{\"id\": 1, \"text\": \"a\", \"due\": null, \"done\": false, \"created_at\": \"t\"}]'')
     = \<lparr>raised = None, printed = [TaskNotFound 2],
        store = Some ''[{\"id\": 1, \"text\": \"a\", \"due\": null, \"done\": false, \"created_at\": \"t\"}]''\<rparr>
   \<and> cmd_undone 2 (Some ''[{\"id\": 1, \"text\": \"a\", \"due\": null, \"done\": false, \"created_at\": \"t\"}]'')
     = \<lparr>raised = None, printed = [TaskNotFound 2],
        store = Some ''[{\"id\": 1, \"text\": \"a\", \"due\": null, \"done\": false, \"created_at\": \"t\"}]''\<rparr>"
proof -
  let ?f = "Some ''[{\"id\": 1, \"text\": \"a\", \"due\": null, \"done\": false, \"created_at\": \"t\"}]''"
  let ?ts = "[JObj [(''id'', JInt 1), (''text'', JStr ''a''), (''due'', JNull),
                    (''done'', JBool False), (''created_at'', JStr ''t'')]]"
  have h1: "load_tasks ?f = Inr (JArr ?ts)" by code_simp
  have h2: "list_all is_task ?ts" by code_simp
  have h3: "2 \<notin> set (map id_of ?ts)" by code_simp
  from mark_missing_id [OF h1 h2 h3] h1 show ?thesis by simp
qed

section \<open>Properties of the due times\<close>

lemma upper_char_cases:
  obtains (lower) k where "upper_char c = [char_of k]" "65 \<le> k" "k \<le> 90" "(of_char c :: nat) = k + 32"
  | (sharp) "upper_char c = ''SS''" "(of_char c :: nat) = 223"
  | (latin) k where "upper_char c = [char_of k]" "192 \<le> k" "k \<le> 222" "(of_char c :: nat) = k + 32"
  | (same) "upper_char c = [c]" "\<not> (97 \<le> (of_char c :: nat) \<and> (of_char c :: nat) \<le> 122)"
      "(of_char c :: nat) \<noteq> 223"
      "\<not> (224 \<le> (of_char c :: nat) \<and> (of_char c :: nat) \<le> 254 \<and> (of_char c :: nat) \<noteq> 247)"
proof -
  let ?n = "of_char c :: nat"
  consider "97 \<le> ?n \<and> ?n \<le> 122" | "?n = 223" | "224 \<le> ?n \<and> ?n \<le> 254 \<and> ?n \<noteq> 247"
    | "\<not> (97 \<le> ?n \<and> ?n \<le> 122)" "?n \<noteq> 223" "\<not> (224 \<le> ?n \<and> ?n \<le> 254 \<and> ?n \<noteq> 247)"
    by blast
  then show ?thesis
  proof cases
    case 1
    then have "upper_char c = [char_of (?n - 32)]" by (simp add: upper_char_def Let_def)
    moreover from 1 have "65 \<le> ?n - 32" "?n - 32 \<le> 90" "?n = (?n - 32) + 32" by arith+
    ultimately show ?thesis by (rule lower)
  next
    case 2
    then show ?thesis by (intro sharp) (simp_all add: upper_char_def Let_def)
  next
    case 3
    then have "upper_char c = [char_of (?n - 32)]" by (simp add: upper_char_def Let_def)
    moreover from 3 have "192 \<le> ?n - 32" "?n - 32 \<le> 222" "?n = (?n - 32) + 32" by arith+
    ultimately show ?thesis by (rule latin)
  next
    case 4
    then have "upper_char c = [c]" by (auto simp: upper_char_def Let_def)
    with 4 show ?thesis by (intro same) simp_all
  qed
qed

lemma of_char_char_of_small: "(k::nat) < 256 \<Longrightarrow> (of_char (char_of k) :: nat) = k"
  by simp

lemma isspace_char_of: "(k::nat) < 256 \<Longrightarrow> isspace (char_of k) \<longleftrightarrow> k \<in> set [9, 10, 11, 12, 13, 28, 29, 30, 31, 32, 133, 160]"
  by (simp only: isspace_def of_char_char_of_small)

lemma upper_char_space: "isspace c \<Longrightarrow> upper_char c = [c]"
proof (cases c rule: upper_char_cases)
  case (lower k)
  assume "isspace c"
  with lower show ?thesis by (simp add: isspace_def)
next
  case sharp
  assume "isspace c"
  with sharp show ?thesis by (simp add: isspace_def)
next
  case (latin k)
  assume "isspace c"
  with latin show ?thesis by (simp add: isspace_def)
next
  case same
  then show ?thesis by simp
qed

lemma upper_char_nonspace:
  assumes "\<not> isspace c"
  shows "upper_char c \<noteq> [] \<and> \<not> isspace (hd (upper_char c))"
proof (cases c rule: upper_char_cases)
  case (lower k)
  then show ?thesis by (simp add: isspace_char_of)
next
  case sharp
  then show ?thesis by (simp add: isspace_def)
next
  case (latin k)
  then show ?thesis by (simp add: isspace_char_of)
next
  case same
  with assms show ?thesis by simp
qed

lemma upper_char_rev: "rev (upper_char c) = upper_char c"
  by (cases c rule: upper_char_cases) simp_all

lemma upper_char_of_upper: "(65 \<le> (k::nat) \<and> k \<le> 90) \<or> (192 \<le> k \<and> k \<le> 222) \<Longrightarrow> upper_char (char_of k) = [char_of k]"
  by (simp only: upper_char_def of_char_char_of_small Let_def) auto

lemma upper_char_idem: "x \<in> set (upper_char c) \<Longrightarrow> upper_char x = [x]"
proof (cases c rule: upper_char_cases)
  case (lower k)
  assume "x \<in> set (upper_char c)"
  with lower show ?thesis by (simp add: upper_char_of_upper)
next
  case sharp
  assume "x \<in> set (upper_char c)"
  with sharp show ?thesis by (simp add: upper_char_def)
next
  case (latin k)
  assume "x \<in> set (upper_char c)"
  with latin show ?thesis by (simp add: upper_char_of_upper)
next
  case same
  assume "x \<in> set (upper_char c)"
  with same show ?thesis by simp
qed

lemma in_chr_in: "(t, r) \<in> set (chr_in cs s) \<longleftrightarrow> (\<exists>c. c \<in> set cs \<and> t = [c] \<and> s = c # r)"
  by (cases s) (auto simp: chr_in_def)

lemma in_re_seq:
  "(t, r) \<in> set (re_seq p q s) \<longleftrightarrow> (\<exists>a b m. (a, m) \<in> set (p s) \<and> (b, r) \<in> set (q m) \<and> t = a @ b)"
  by (force simp: re_seq_def)

lemma in_re_alt: "x \<in> set (re_alt p q s) \<longleftrightarrow> x \<in> set (p s) \<or> x \<in> set (q s)"
  by (simp add: re_alt_def)

lemma in_re_word:
  "(t, r) \<in> set (re_word w s) \<Longrightarrow> s = t @ r \<and> lower t = lower w"
  by (auto simp: re_word_def split: if_splits)

lemma nat_of_digits_1: "nat_of_digits [a] = digit_val a"
  by (simp add: nat_of_digits_def)

lemma nat_of_digits_2: "nat_of_digits [a, b] = 10 * digit_val a + digit_val b"
  by (simp add: nat_of_digits_def)

lemma re_H_bound: "(t, r) \<in> set (re_H s) \<Longrightarrow> nat_of_digits t < 24"
  unfolding re_H_def in_re_alt in_re_seq in_chr_in
  by (auto simp: nat_of_digits_1 nat_of_digits_2 digit_val_def)

lemma re_M_bound: "(t, r) \<in> set (re_M s) \<Longrightarrow> nat_of_digits t < 60"
  unfolding re_M_def in_re_alt in_re_seq in_chr_in
  by (auto simp: nat_of_digits_1 nat_of_digits_2 digit_val_def)

lemma re_I_bound: "(t, r) \<in> set (re_I s) \<Longrightarrow> 1 \<le> nat_of_digits t \<and> nat_of_digits t \<le> 12"
  unfolding re_I_def in_re_alt in_re_seq in_chr_in
  by (auto simp: nat_of_digits_1 nat_of_digits_2 digit_val_def)

lemma re_p_text: "(t, r) \<in> set (re_p s) \<Longrightarrow> lower t = ''am'' \<or> lower t = ''pm''"
  unfolding re_p_def in_re_alt
  by (auto dest!: in_re_word simp: lower_def lower_char_def)


lemma in_pattern_HM:
  "(found, r) \<in> set (pattern ''%H:%M'' s) \<Longrightarrow>
     \<exists>h m r1 r2. (h, r1) \<in> set (re_H s) \<and> (m, r) \<in> set (re_M r2)
        \<and> found = [(CHR ''H'', h), (CHR ''M'', m)]"
  by (fastforce simp: directive_def dest!: in_re_word)

lemma in_pattern_IMp:
  "(found, r) \<in> set (pattern ''%I:%M%p'' s) \<Longrightarrow>
     \<exists>h m p r1 r2 r3. (h, r1) \<in> set (re_I s) \<and> (m, r3) \<in> set (re_M r2) \<and> (p, r) \<in> set (re_p r3)
        \<and> found = [(CHR ''I'', h), (CHR ''M'', m), (CHR ''p'', p)]"
  by (fastforce simp: directive_def dest!: in_re_word)

lemma in_pattern_Ip:
  "(found, r) \<in> set (pattern ''%I%p'' s) \<Longrightarrow>
     \<exists>h p r1. (h, r1) \<in> set (re_I s) \<and> (p, r) \<in> set (re_p r1)
        \<and> found = [(CHR ''I'', h), (CHR ''p'', p)]"
  by (fastforce simp: directive_def dest!: in_re_word)

lemma strptime_in_pattern:
  "strptime u fmt = Inr hm \<Longrightarrow>
     \<exists>found. (found, []) \<in> set (pattern fmt u) \<and> hm = foldl (convert found) (0, 0) found"
  by (cases "pattern fmt u") (auto simp: strptime_def split: if_splits)

lemma strptime_HM_range: "strptime u ''%H:%M'' = Inr hm \<Longrightarrow> fst hm < 24 \<and> snd hm < 60"
  by (auto dest!: strptime_in_pattern in_pattern_HM simp: convert_def dest: re_H_bound re_M_bound)

lemma strptime_IMp_range: "strptime u ''%I:%M%p'' = Inr hm \<Longrightarrow> fst hm < 24 \<and> snd hm < 60"
  by (auto dest!: strptime_in_pattern in_pattern_IMp simp: convert_def Let_def
      dest: re_I_bound re_M_bound re_p_text)

lemma strptime_Ip_range: "strptime u ''%I%p'' = Inr hm \<Longrightarrow> fst hm < 24 \<and> snd hm < 60"
  by (auto dest!: strptime_in_pattern in_pattern_Ip simp: convert_def Let_def
      dest: re_I_bound re_p_text)

lemma try_formats_rank:
  "fst (try_formats d [''%H:%M'', ''%I:%M%p'', ''%I%p'']) = 999998
   \<or> (0 \<le> fst (try_formats d [''%H:%M'', ''%I:%M%p'', ''%I%p''])
      \<and> fst (try_formats d [''%H:%M'', ''%I:%M%p'', ''%I%p'']) < 1440)"
  by (auto split: sum.splits dest!: strptime_HM_range strptime_IMp_range strptime_Ip_range)

lemma upper_char_nonempty: "upper_char c \<noteq> []"
  by (cases c rule: upper_char_cases) simp_all

lemma upper_Nil_iff: "upper s = [] \<longleftrightarrow> s = []"
  by (cases s) (simp_all add: upper_def upper_char_nonempty)

lemma upper_append: "upper (s @ t) = upper s @ upper t"
  by (simp add: upper_def)

lemma upper_rev: "rev (upper s) = upper (rev s)"
  by (induction s) (simp_all add: upper_def upper_char_rev)

lemma upper_dropWhile: "dropWhile isspace (upper s) = upper (dropWhile isspace s)"
proof (induction s)
  case Nil
  show ?case by (simp add: upper_def)
next
  case (Cons c s)
  show ?case
  proof (cases "isspace c")
    case True
    with Cons show ?thesis by (simp add: upper_def upper_char_space)
  next
    case False
    then obtain x xs where "upper_char c = x # xs" "\<not> isspace x"
      using upper_char_nonspace [of c] by (cases "upper_char c") auto
    with False show ?thesis by (simp add: upper_def)
  qed
qed

lemma upper_strip: "strip (upper s) = upper (strip s)"
  by (simp add: strip_def upper_dropWhile upper_rev)

lemma upper_fixed: "(\<And>x. x \<in> set t \<Longrightarrow> upper_char x = [x]) \<Longrightarrow> upper t = t"
  by (induction t) (auto simp: upper_def)

lemma upper_idem: "upper (upper s) = upper s"
proof (induction s)
  case Nil
  show ?case by (simp add: upper_def)
next
  case (Cons c s)
  have "upper (upper_char c) = upper_char c"
    by (rule upper_fixed) (rule upper_char_idem)
  with Cons show ?case
    using upper_append [of "upper_char c" "upper s"] by (simp add: upper_def)
qed

lemma fst_try_formats_upper:
  "upper d = upper d' \<Longrightarrow> fst (try_formats d fmts) = fst (try_formats d' fmts)"
  by (induction fmts) (auto split: sum.splits)

lemma rank_case_insensitive:
  assumes "upper s = upper s'"
  shows "map_sum id fst (parse_due_key (JStr s)) = map_sum id fst (parse_due_key (JStr s'))"
proof -
  from assms have e: "s = [] \<longleftrightarrow> s' = []" by (metis upper_Nil_iff)
  from assms have "upper (strip s) = upper (strip s')" by (metis upper_strip)
  then have "fst (try_formats (strip s) [''%H:%M'', ''%I:%M%p'', ''%I%p''])
      = fst (try_formats (strip s') [''%H:%M'', ''%I:%M%p'', ''%I%p''])"
    by (rule fst_try_formats_upper)
  with e show ?thesis
    by (simp add: parse_due_key_def del: try_formats.simps)
qed

lemma strptime_range:
  assumes "fmt \<in> set [''%H:%M'', ''%I:%M%p'', ''%I%p'']" and "strptime u fmt = Inr hm"
  shows "fst hm < 24 \<and> snd hm < 60"
  using assms strptime_HM_range [of u hm] strptime_IMp_range [of u hm] strptime_Ip_range [of u hm]
  by auto

text \<open>
  Claim C2. \<^verbatim>\<open>parse_due_key\<close> tries the formats \<^verbatim>\<open>%H:%M\<close>, \<^verbatim>\<open>%I:%M%p\<close> and \<^verbatim>\<open>%I%p\<close> in
  this order on the stripped, upper-cased due string and returns the minute of the
  day of the first format that matches, with the stripped string; every such rank is
  an hour below 24 times 60 plus a minute below 60, and two strings that differ in
  case only have the same rank. \<^verbatim>\<open>14:30\<close> and \<^verbatim>\<open>2:30PM\<close> get rank 870, \<^verbatim>\<open>2PM\<close> gets
  840, an empty or absent due gets 999999, and \<^verbatim>\<open>whenever\<close>, which matches no format,
  gets 999998.
\<close>

theorem parse_due_key_ranks:
  "parse_due_key (JStr ''14:30'') = Inr (870, ''14:30'')
   \<and> parse_due_key (JStr ''2:30PM'') = Inr (870, ''2:30PM'')
   \<and> parse_due_key (JStr ''2PM'') = Inr (840, ''2PM'')
   \<and> parse_due_key (JStr []) = Inr (999999, [])
   \<and> parse_due_key JNull = Inr (999999, [])
   \<and> parse_due_key (JStr ''whenever'') = Inr (999998, ''whenever'')
   \<and> (s \<noteq> [] \<longrightarrow>
        parse_due_key (JStr s) =
          Inr (case strptime (upper (strip s)) ''%H:%M'' of
                 Inr hm \<Rightarrow> (int (fst hm * 60 + snd hm), strip s)
               | Inl e \<Rightarrow>
                   (case strptime (upper (strip s)) ''%I:%M%p'' of
                      Inr hm \<Rightarrow> (int (fst hm * 60 + snd hm), strip s)
                    | Inl e \<Rightarrow>
                        (case strptime (upper (strip s)) ''%I%p'' of
                           Inr hm \<Rightarrow> (int (fst hm * 60 + snd hm), strip s)
                         | Inl e \<Rightarrow> (999998, strip s)))))
   \<and> (fmt \<in> set [''%H:%M'', ''%I:%M%p'', ''%I%p''] \<and> strptime u fmt = Inr hm
        \<longrightarrow> fst hm < 24 \<and> snd hm < 60)
   \<and> (upper s = upper s' \<longrightarrow>
        map_sum id fst (parse_due_key (JStr s)) = map_sum id fst (parse_due_key (JStr s')))"
proof -
  have "parse_due_key (JStr ''14:30'') = Inr (870, ''14:30'')" by code_simp
  moreover have "parse_due_key (JStr ''2:30PM'') = Inr (870, ''2:30PM'')" by code_simp
  moreover have "parse_due_key (JStr ''2PM'') = Inr (840, ''2PM'')" by code_simp
  moreover have "parse_due_key (JStr []) = Inr (999999, [])" by (simp add: parse_due_key_def)
  moreover have "parse_due_key JNull = Inr (999999, [])" by (simp add: parse_due_key_def)
  moreover have "parse_due_key (JStr ''whenever'') = Inr (999998, ''whenever'')" by code_simp
  moreover have "s \<noteq> [] \<longrightarrow>
        parse_due_key (JStr s) =
          Inr (case strptime (upper (strip s)) ''%H:%M'' of
                 Inr hm \<Rightarrow> (int (fst hm * 60 + snd hm), strip s)
               | Inl e \<Rightarrow>
                   (case strptime (upper (strip s)) ''%I:%M%p'' of
                      Inr hm \<Rightarrow> (int (fst hm * 60 + snd hm), strip s)
                    | Inl e \<Rightarrow>
                        (case strptime (upper (strip s)) ''%I%p'' of
                           Inr hm \<Rightarrow> (int (fst hm * 60 + snd hm), strip s)
                         | Inl e \<Rightarrow> (999998, strip s))))"
    by (simp add: parse_due_key_def split: sum.splits)
  moreover have "fmt \<in> set [''%H:%M'', ''%I:%M%p'', ''%I%p''] \<and> strptime u fmt = Inr hm
        \<longrightarrow> fst hm < 24 \<and> snd hm < 60"
    using strptime_range by blast
  moreover have "upper s = upper s' \<longrightarrow>
        map_sum id fst (parse_due_key (JStr s)) = map_sum id fst (parse_due_key (JStr s'))"
    using rank_case_insensitive by blast
  ultimately show ?thesis by blast
qed

theorem parse_due_key_ranks_witness:
  "upper ''2:30pm'' = upper ''2:30PM''
   \<and> parse_due_key (JStr ''2:30pm'') = Inr (870, ''2:30pm'')
   \<and> strptime (upper (strip ''2:30pm'')) ''%H:%M'' = Inl ValueError
   \<and> strptime (upper (strip ''2:30pm'')) ''%I:%M%p'' = Inr (14, 30)
   \<and> map_sum id fst (parse_due_key (JStr ''2:30pm'')) = map_sum id fst (parse_due_key (JStr ''2:30PM''))"
proof -
  have u: "upper ''2:30pm'' = upper ''2:30PM''" by code_simp
  have a: "strptime (upper (strip ''2:30pm'')) ''%H:%M'' = Inl ValueError" by code_simp
  have b: "strptime (upper (strip ''2:30pm'')) ''%I:%M%p'' = Inr (14, 30)" by code_simp
  have n: "''2:30pm'' \<noteq> []" by simp
  from parse_due_key_ranks [of "''2:30pm''" "''%I:%M%p''" "upper (strip ''2:30pm'')" "(14, 30)" "''2:30PM''"]
  have "parse_due_key (JStr ''2:30pm'') = Inr (870, strip ''2:30pm'')"
    and "map_sum id fst (parse_due_key (JStr ''2:30pm'')) = map_sum id fst (parse_due_key (JStr ''2:30PM''))"
    using u a b n by simp_all
  moreover have "strip ''2:30pm'' = ''2:30pm''" by code_simp
  ultimately show ?thesis using u a b by simp
qed

section \<open>Properties of the display order\<close>

lemma sort_key_zip:
  "map snd (sort_key fst (zip (map f ts) ts)) = sort_key f ts"
proof -
  have z: "zip (map f ts) ts = map (\<lambda>y. (f y, y)) ts" by (induction ts) auto
  have "sort_key fst (map (\<lambda>y. (f y, y)) ts) = map (\<lambda>y. (f y, y)) (sort_key f ts)"
  proof (induction ts)
    case Nil
    show ?case by simp
  next
    case (Cons a ts)
    have "\<And>zs. insort_key fst (f a, a) (map (\<lambda>y. (f y, y)) zs) = map (\<lambda>y. (f y, y)) (insort_key f a zs)"
      subgoal for zs by (induction zs) auto
      done
    with Cons show ?case by simp
  qed
  with z show ?thesis by (simp add: comp_def)
qed

lemma parse_due_key_due:
  "d = JNull \<or> (\<exists>s. d = JStr s) \<Longrightarrow> \<exists>rs. parse_due_key d = Inr rs"
  by (auto simp: parse_due_key_def simp del: try_formats.simps)

lemma is_task_key:
  assumes "is_task t"
  shows "\<exists>k. task_key t = Inr k \<and> num_key k = Some (display_key t)"
proof -
  from assms obtain kvs tx d c b where t: "t = JObj kvs" "map_of kvs ''due'' = Some d"
    "d = JNull \<or> (\<exists>s. d = JStr s)" "map_of kvs ''done'' = Some (JBool b)"
    by (rule is_task_obj)
  from t(3) obtain rs where "parse_due_key d = Inr rs" using parse_due_key_due by blast
  with t show ?thesis by (simp add: task_key_def display_key_def num_key_def)
qed

lemma task_keys_tasks:
  "list_all is_task ts \<Longrightarrow> \<exists>ks. task_keys ts = Inr ks \<and> those (map num_key ks) = Some (map display_key ts)"
proof (induction ts)
  case Nil
  show ?case by simp
next
  case (Cons t ts)
  then obtain ks where "task_keys ts = Inr ks" "those (map num_key ks) = Some (map display_key ts)"
    by auto
  moreover from Cons.prems have "is_task t" by simp
  then obtain k where "task_key t = Inr k" "num_key k = Some (display_key t)"
    using is_task_key by blast
  ultimately show ?case by simp
qed

lemma sort_tasks_tasks:
  assumes "list_all is_task ts"
  shows "sort_tasks (JArr ts) = Inr (sort_key display_key ts)"
proof -
  from assms obtain ks where "task_keys ts = Inr ks" "those (map num_key ks) = Some (map display_key ts)"
    using task_keys_tasks by blast
  then show ?thesis by (simp add: sort_tasks_def sort_key_zip)
qed


lemma try_formats_parseable:
  "parseable s \<Longrightarrow> 0 \<le> fst (try_formats (strip s) clock_formats)
      \<and> fst (try_formats (strip s) clock_formats) < 1440"
  by (auto simp: parseable_def clock_formats_def split: sum.splits
      dest!: strptime_HM_range strptime_IMp_range strptime_Ip_range)

lemma try_formats_unparseable:
  "\<not> parseable s \<Longrightarrow> fst (try_formats (strip s) clock_formats) = 999998"
  by (auto simp: parseable_def clock_formats_def split: sum.splits)

lemma try_formats_text: "snd (try_formats d fmts) = d"
  by (induction fmts) (auto split: sum.splits)

lemma try_formats_text_eq: "try_formats d fmts = (a, b) \<Longrightarrow> b = d"
  using try_formats_text [of d fmts] by simp

lemma display_key_task:
  assumes "is_task t"
  shows "fst (display_key t) = (if is_done t then 1 else 0)"
    and "due_of t = None \<Longrightarrow> due_rank t = 999999 \<and> due_text t = []"
    and "due_of t = Some s \<Longrightarrow>
           due_rank t = fst (try_formats (strip s) clock_formats) \<and> due_text t = strip s"
proof -
  from assms obtain kvs tx d c b where t: "t = JObj kvs" "map_of kvs ''due'' = Some d"
    "d = JNull \<or> (\<exists>s. d = JStr s)" "map_of kvs ''done'' = Some (JBool b)"
    by (rule is_task_obj)
  from t(3) obtain rs where rs: "parse_due_key d = Inr rs" using parse_due_key_due by blast
  with t have k: "display_key t = ((if b then 1 else 0), rs)"
    by (simp add: task_key_def display_key_def num_key_def)
  from t k show "fst (display_key t) = (if is_done t then 1 else 0)"
    by (simp add: is_done_def field_def)
  from t have due: "due_of t = (case d of JStr x \<Rightarrow> if x = [] then None else Some x | _ \<Rightarrow> None)"
    by (simp add: due_of_def field_def)
  {
    assume "due_of t = None"
    with due t(3) have "\<not> truthy d" by (auto split: if_splits)
    with rs have "rs = (999999, [])" by (simp add: parse_due_key_def)
    with k show "due_rank t = 999999 \<and> due_text t = []" by (simp add: due_rank_def due_text_def)
  }
  {
    assume "due_of t = Some s"
    with due t(3) have d: "d = JStr s" "s \<noteq> []" by (auto split: if_splits)
    with rs have "rs = try_formats (strip s) clock_formats"
      by (simp add: parse_due_key_def clock_formats_def del: try_formats.simps)
    with k show "due_rank t = fst (try_formats (strip s) clock_formats) \<and> due_text t = strip s"
      by (simp add: due_rank_def due_text_def try_formats_text)
  }
qed

lemma due_class_rank:
  assumes "is_task t"
  shows "(due_class t = 0 \<and> 0 \<le> due_rank t \<and> due_rank t < 1440)
       \<or> (due_class t = 1 \<and> due_rank t = 999998)
       \<or> (due_class t = 2 \<and> due_rank t = 999999)"
proof (cases "due_of t")
  case None
  with display_key_task(2) [OF assms] show ?thesis by (simp add: due_class_def)
next
  case (Some s)
  with display_key_task(3) [OF assms] try_formats_parseable [of s] try_formats_unparseable [of s]
  show ?thesis by (cases "parseable s") (simp_all add: due_class_def)
qed

lemma key_le_order:
  assumes "is_task a" and "is_task b" and "display_key a \<le> display_key b"
  shows "(is_done a \<longrightarrow> is_done b)
       \<and> (is_done a = is_done b \<longrightarrow>
            due_class a \<le> due_class b
            \<and> (due_class a = due_class b \<longrightarrow>
                 due_rank a \<le> due_rank b \<and> (due_rank a = due_rank b \<longrightarrow> due_text a \<le> due_text b)))"
proof -
  obtain d1 r1 s1 where k1: "display_key a = (d1, r1, s1)" by (cases "display_key a") auto
  obtain d2 r2 s2 where k2: "display_key b = (d2, r2, s2)" by (cases "display_key b") auto
  from k1 k2 display_key_task(1) [OF assms(1)] display_key_task(1) [OF assms(2)]
  have d: "d1 = (if is_done a then 1 else 0)" "d2 = (if is_done b then 1 else 0)" by simp_all
  from k1 k2 have r: "due_rank a = r1" "due_rank b = r2" "due_text a = s1" "due_text b = s2"
    by (simp_all add: due_rank_def due_text_def)
  from assms(3) k1 k2 have le: "d1 < d2 \<or> (d1 = d2 \<and> (r1 < r2 \<or> (r1 = r2 \<and> s1 \<le> s2)))"
    by (auto simp: less_eq_prod_def)
  from due_class_rank [OF assms(1)] due_class_rank [OF assms(2)] le d r
  show ?thesis by (auto split: if_splits)
qed


text \<open>
  Claim C1, as amended. For every collection of well-formed tasks the display sort
  returns the same tasks, keeps the stored order of tasks with equal keys (it is
  stable) and orders by the key: an incomplete task never follows a completed one;
  within a completion group parseable due times come before unparseable due strings,
  which come before tasks without a due value; within a group of due values the rank
  (the minute of the day of a parseable due time) ascends, and for equal ranks the
  due string stripped of surrounding whitespace ascends.
\<close>

theorem sort_tasks_order:
  assumes "list_all is_task ts"
  shows "\<exists>out. sort_tasks (JArr ts) = Inr out
      \<and> mset out = mset ts
      \<and> (\<forall>k. filter (\<lambda>t. display_key t = k) out = filter (\<lambda>t. display_key t = k) ts)
      \<and> (\<forall>i j. i < j \<and> j < length out \<longrightarrow>
            (is_done (out ! i) \<longrightarrow> is_done (out ! j))
            \<and> (is_done (out ! i) = is_done (out ! j) \<longrightarrow>
                 due_class (out ! i) \<le> due_class (out ! j)
                 \<and> (due_class (out ! i) = due_class (out ! j) \<longrightarrow>
                      due_rank (out ! i) \<le> due_rank (out ! j)
                      \<and> (due_rank (out ! i) = due_rank (out ! j) \<longrightarrow>
                           due_text (out ! i) \<le> due_text (out ! j)))))"
proof -
  let ?out = "sort_key display_key ts"
  have s: "sort_tasks (JArr ts) = Inr ?out" using assms by (rule sort_tasks_tasks)
  have m: "mset ?out = mset ts" by simp
  have st: "\<forall>k. filter (\<lambda>t. display_key t = k) ?out = filter (\<lambda>t. display_key t = k) ts"
    by (simp add: sort_key_stable)
  have tasks: "\<And>i. i < length ?out \<Longrightarrow> is_task (?out ! i)"
  proof -
    fix i assume "i < length ?out"
    then have "?out ! i \<in> set ?out" by (rule nth_mem)
    then have "?out ! i \<in> set ts" by simp
    with assms show "is_task (?out ! i)" by (simp add: list_all_iff)
  qed
  have "sorted (map display_key ?out)" by (rule sorted_sort_key)
  then have le: "\<And>i j. i < j \<Longrightarrow> j < length ?out \<Longrightarrow> display_key (?out ! i) \<le> display_key (?out ! j)"
    by (simp add: sorted_iff_nth_mono)
  have "\<forall>i j. i < j \<and> j < length ?out \<longrightarrow>
            (is_done (?out ! i) \<longrightarrow> is_done (?out ! j))
            \<and> (is_done (?out ! i) = is_done (?out ! j) \<longrightarrow>
                 due_class (?out ! i) \<le> due_class (?out ! j)
                 \<and> (due_class (?out ! i) = due_class (?out ! j) \<longrightarrow>
                      due_rank (?out ! i) \<le> due_rank (?out ! j)
                      \<and> (due_rank (?out ! i) = due_rank (?out ! j) \<longrightarrow>
                           due_text (?out ! i) \<le> due_text (?out ! j))))"
  proof (intro allI impI)
    fix i j assume "i < j \<and> j < length ?out"
    then have "i < length ?out" "j < length ?out" "i < j" by simp_all
    then show "(is_done (?out ! i) \<longrightarrow> is_done (?out ! j))
            \<and> (is_done (?out ! i) = is_done (?out ! j) \<longrightarrow>
                 due_class (?out ! i) \<le> due_class (?out ! j)
                 \<and> (due_class (?out ! i) = due_class (?out ! j) \<longrightarrow>
                      due_rank (?out ! i) \<le> due_rank (?out ! j)
                      \<and> (due_rank (?out ! i) = due_rank (?out ! j) \<longrightarrow>
                           due_text (?out ! i) \<le> due_text (?out ! j))))"
      by (intro key_le_order tasks le)
  qed
  with s m st show ?thesis by blast
qed

theorem sort_tasks_order_witness:
  "list_all is_task
     [sample_task 1 (JStr ''9:00'') True, sample_task 2 JNull False,
      sample_task 3 (JStr ''whenever'') False, sample_task 4 (JStr ''2PM'') False,
      sample_task 5 (JStr ''14:00'') False, sample_task 6 (JStr '' 2pm '') False]
   \<and> sort_tasks (JArr
     [sample_task 1 (JStr ''9:00'') True, sample_task 2 JNull False,
      sample_task 3 (JStr ''whenever'') False, sample_task 4 (JStr ''2PM'') False,
      sample_task 5 (JStr ''14:00'') False, sample_task 6 (JStr '' 2pm '') False])
     = Inr [sample_task 5 (JStr ''14:00'') False, sample_task 4 (JStr ''2PM'') False,
            sample_task 6 (JStr '' 2pm '') False, sample_task 3 (JStr ''whenever'') False,
            sample_task 2 JNull False, sample_task 1 (JStr ''9:00'') True]
   \<and> (\<exists>out. sort_tasks (JArr
     [sample_task 1 (JStr ''9:00'') True, sample_task 2 JNull False,
      sample_task 3 (JStr ''whenever'') False, sample_task 4 (JStr ''2PM'') False,
      sample_task 5 (JStr ''14:00'') False, sample_task 6 (JStr '' 2pm '') False]) = Inr out
       \<and> is_done (out ! 5) \<and> due_class (out ! 0) = 0 \<and> due_class (out ! 3) = 1
       \<and> due_class (out ! 4) = 2)"
proof -
  let ?ts = "[sample_task 1 (JStr ''9:00'') True, sample_task 2 JNull False,
      sample_task 3 (JStr ''whenever'') False, sample_task 4 (JStr ''2PM'') False,
      sample_task 5 (JStr ''14:00'') False, sample_task 6 (JStr '' 2pm '') False]"
  have h: "list_all is_task ?ts" by code_simp
  have e: "sort_tasks (JArr ?ts)
     = Inr [sample_task 5 (JStr ''14:00'') False, sample_task 4 (JStr ''2PM'') False,
            sample_task 6 (JStr '' 2pm '') False, sample_task 3 (JStr ''whenever'') False,
            sample_task 2 JNull False, sample_task 1 (JStr ''9:00'') True]"
    by code_simp
  have c: "is_done (sample_task 1 (JStr ''9:00'') True)"
    "due_class (sample_task 5 (JStr ''14:00'') False) = 0"
    "due_class (sample_task 3 (JStr ''whenever'') False) = 1"
    "due_class (sample_task 2 JNull False) = 2"
    by code_simp+
  from sort_tasks_order [OF h] h e c show ?thesis by simp
qed

text \<open>
  Claim C1 as stated takes the original due string as the last component of the key.
  The source compares the stripped string: two tasks due at \<^verbatim>\<open>"9:00 "\<close> and at
  \<^verbatim>\<open>"9:00"\<close> have equal keys and keep their stored order, against the order of the
  original strings.
\<close>

theorem sort_tasks_original_due_counterexample:
  "\<not> (\<forall>ts out. list_all is_task ts \<and> sort_tasks (JArr ts) = Inr out
         \<longrightarrow> sorted (map spec_display_key out))"
proof
  let ?ts = "[sample_task 1 (JStr ''9:00 '') False, sample_task 2 (JStr ''9:00'') False]"
  assume a: "\<forall>ts out. list_all is_task ts \<and> sort_tasks (JArr ts) = Inr out
         \<longrightarrow> sorted (map spec_display_key out)"
  have h: "list_all is_task ?ts" by code_simp
  have e: "sort_tasks (JArr ?ts) = Inr ?ts" by code_simp
  from a h e have "sorted (map spec_display_key ?ts)" by blast
  moreover have "\<not> sorted (map spec_display_key ?ts)" by code_simp
  ultimately show False by simp
qed

end
